theory Spec2Isabelle
  imports Main "HOL-Library.AList" "HOL-Library.Sublist"
begin

section \<open>The platform: file system, network, URL and path library, document tree\<close>

text \<open>
  The mirror script runs on Node with \<^verbatim>\<open>axios\<close>, \<^verbatim>\<open>cheerio\<close>, \<^verbatim>\<open>fs\<close>, \<^verbatim>\<open>path\<close> and
  \<^verbatim>\<open>url\<close>. None of these is code of the repository, so they are parameters of the model:
  every general theorem below holds for any behaviour of the library functions. A
  concrete instance \<open>node_lib\<close> is defined further down to run the model on explicit
  inputs.

  Strings are lists of code units below 256, and so are file contents and response
  bodies: \<^verbatim>\<open>toString()\<close> of a stylesheet is taken as the identity. The text of a script
  read with \<^verbatim>\<open>'utf8'\<close> is decoded into 16-bit code units, see the first revision below.
\<close>

datatype error =
    EntryFetchFailed | InvalidURL | ENOENT | EISDIR | ENOTDIR | ENAMETOOLONG | NoParentDirectory

datatype entry = File string | Dir

text \<open>
  The file system is an association list from paths to entries, in directory order.
  Paths are compared as they are written, which is how \<^verbatim>\<open>path.join\<close> returns them
  (normalised). The root and the current directory exist in every file system.
\<close>

type_synonym filesystem = "(string \<times> entry) list"

definition existsSync :: "filesystem \<Rightarrow> string \<Rightarrow> bool" where
  "existsSync fs p = (map_of fs p \<noteq> None)"

text \<open>
  The directory part and the last name of a path, as the operating system reads them,
  and the length in bytes of a name (a code unit from 128 on takes two bytes).
\<close>

definition parent_dir :: "string \<Rightarrow> string" where
  "parent_dir p =
     (let d = rev (dropWhile (\<lambda>c. c = CHR ''/'') (dropWhile (\<lambda>c. c \<noteq> CHR ''/'') (rev p)))
      in if d \<noteq> [] then d else if CHR ''/'' \<in> set p then ''/'' else ''.'')"

definition base_name :: "string \<Rightarrow> string" where
  "base_name p = rev (takeWhile (\<lambda>c. c \<noteq> CHR ''/'') (rev p))"

definition byte_length :: "string \<Rightarrow> nat" where
  "byte_length s = length s + length (filter (\<lambda>c. 128 \<le> (of_char c :: nat)) s)"

definition is_directory :: "filesystem \<Rightarrow> string \<Rightarrow> bool" where
  "is_directory fs d = (d = ''/'' \<or> d = ''.'' \<or> map_of fs d = Some Dir)"

text \<open>
  \<^verbatim>\<open>fs.writeFileSync(path, data)\<close> replaces a file that exists and fails on a directory.
  When nothing exists at the path it creates the file, and fails
  \<^item> with ENOENT on the empty path,
  \<^item> with ENAMETOOLONG on a path longer than 4095 bytes,
  \<^item> when the parent is not an existing directory: Node reports ENOENT for a missing
    parent and ENOTDIR for a parent that is a file; the scripts read no error code, and
    the two are the one value \<open>NoParentDirectory\<close> here,
  \<^item> with EISDIR on a path that ends with a slash,
  \<^item> with ENAMETOOLONG on a new name longer than 255 bytes.

  \<open>write_error fs p\<close> is the error of a write to \<open>p\<close>, or \<open>None\<close> when the write succeeds.
\<close>

definition write_error :: "filesystem \<Rightarrow> string \<Rightarrow> error option" where
  "write_error fs p =
     (case map_of fs p of
        Some Dir \<Rightarrow> Some EISDIR
      | Some (File d) \<Rightarrow> None
      | None \<Rightarrow>
          if p = [] then Some ENOENT
          else if 4095 < byte_length p then Some ENAMETOOLONG
          else if \<not> is_directory fs (parent_dir p) then Some NoParentDirectory
          else if last p = CHR ''/'' then Some EISDIR
          else if 255 < byte_length (base_name p) then Some ENAMETOOLONG
          else None)"

definition writeFileSync :: "filesystem \<Rightarrow> string \<Rightarrow> string \<Rightarrow> error + filesystem" where
  "writeFileSync fs p d =
     (case write_error fs p of
        Some e \<Rightarrow> Inl e
      | None \<Rightarrow> Inr (AList.update p (File d) fs))"

definition readFileSync :: "filesystem \<Rightarrow> string \<Rightarrow> error + string" where
  "readFileSync fs p =
     (case map_of fs p of
        None \<Rightarrow> Inl ENOENT
      | Some Dir \<Rightarrow> Inl EISDIR
      | Some (File d) \<Rightarrow> Inr d)"

text \<open>\<^verbatim>\<open>new URL(input, base)\<close>: the two properties the program reads.\<close>

record url_obj =
  href :: string
  pathname :: string

text \<open>
  An element of the parsed document with its attributes in order, or markup appended
  verbatim. The selectors of the program are tag and attribute selectors without
  combinators, so the document is the list of its nodes in document order.
\<close>

datatype node = Element string "(string \<times> string) list" | Markup string

record lib =
  URL :: "string \<Rightarrow> string option \<Rightarrow> url_obj option"
  path_basename :: "string \<Rightarrow> string"
  path_join :: "string \<Rightarrow> string \<Rightarrow> string"
  OUT_DIR :: string
  cheerio_html :: "node list \<Rightarrow> string"
  cheerio_append :: "string \<Rightarrow> node list \<Rightarrow> node list"

text \<open>
  \<open>URL lib input base\<close> is \<open>None\<close> where the constructor throws. \<open>OUT_DIR\<close> is
  \<^verbatim>\<open>__dirname\<close>. \<open>cheerio_html\<close> is \<^verbatim>\<open>$.html()\<close> and \<open>cheerio_append s\<close> is
  \<^verbatim>\<open>$('body').append(s)\<close>.
\<close>

text \<open>
  The network: \<open>root_document\<close> is \<^verbatim>\<open>axios.get(BASE_URL)\<close> followed by
  \<^verbatim>\<open>cheerio.load\<close> (\<open>None\<close> when the request fails), \<open>axios_get url\<close> the body of a
  GET of an asset (\<open>None\<close> when the request fails).
\<close>

record net =
  root_document :: "node list option"
  axios_get :: "string \<Rightarrow> string option"

text \<open>The injected snippets are fixed template strings of the source.\<close>

record snippets =
  formFixerScript :: string
  chatbotScript :: string

definition BASE_URL :: string where
  "BASE_URL = ''https://global-indesign.base44.app''"

definition ASSETS_DIR :: "lib \<Rightarrow> string" where
  "ASSETS_DIR l = path_join l (OUT_DIR l) ''assets''"

text \<open>
  Module level: the assets directory is created when it does not exist. The directory
  of the script exists, so of the directories that \<^verbatim>\<open>mkdirSync\<close> with \<^verbatim>\<open>recursive\<close> makes
  only the assets directory can be missing.
\<close>

definition ensure_assets_dir :: "lib \<Rightarrow> filesystem \<Rightarrow> filesystem" where
  "ensure_assets_dir l fs =
     (if \<not> existsSync fs (ASSETS_DIR l) then AList.update (ASSETS_DIR l) Dir fs else fs)"

section \<open>sync.js\<close>

subsection \<open>downloadFile\<close>

text \<open>
  The state of a run: the file system and the calls of \<open>downloadFile\<close> made so far, each
  with its URL and its destination, oldest first.
\<close>

record world =
  files :: filesystem
  requests :: "(string \<times> string) list"

text \<open>
  A step that can throw ends in \<open>Inr w\<close>, or in \<open>Inl (e, w)\<close> when the exception \<open>e\<close>
  left it in the state \<open>w\<close>: what was written before the exception stays written.
\<close>

type_synonym outcome = "(error \<times> world) + world"

text \<open>
  The request and the write are both inside the \<^verbatim>\<open>try\<close>: when either fails the function
  logs and returns \<^verbatim>\<open>null\<close> (\<open>None\<close>).
\<close>

definition downloadFile :: "net \<Rightarrow> string \<Rightarrow> string \<Rightarrow> world \<Rightarrow> string option \<times> world" where
  "downloadFile n u fp w =
     (let w1 = w\<lparr>requests := requests w @ [(u, fp)]\<rparr> in
      case axios_get n u of
        None \<Rightarrow> (None, w1)
      | Some d \<Rightarrow>
          (case writeFileSync (files w1) fp d of
             Inl e \<Rightarrow> (None, w1)
           | Inr fs' \<Rightarrow> (Some d, w1\<lparr>files := fs'\<rparr>)))"

subsection \<open>processCss\<close>

text \<open>
  The regular expression \<^verbatim>\<open>/url\((['"]?)(.*?)\1\)/g\<close>. \<open>find_close q s\<close> is the lazy
  \<^verbatim>\<open>(.*?)\1\)\<close> with \<open>q\<close> the text captured by group 1: the shortest prefix of \<open>s\<close> without
  a line terminator that is followed by \<open>q\<close> and a closing parenthesis, and the text
  after the match.
\<close>

definition line_terminator :: "char \<Rightarrow> bool" where
  "line_terminator c = (c = CHR 0x0A \<or> c = CHR 0x0D)"

fun find_close :: "string \<Rightarrow> string \<Rightarrow> (string \<times> string) option" where
  "find_close q [] = None"
| "find_close q (c # cs) =
     (if prefix (q @ '')'') (c # cs) then Some ([], drop (length q + 1) (c # cs))
      else if line_terminator c then None
      else (case find_close q cs of
              None \<Rightarrow> None
            | Some (t, r) \<Rightarrow> Some (c # t, r)))"

text \<open>
  \<open>url_at s\<close> matches the rest of the expression after \<^verbatim>\<open>url(\<close>: group 1 takes a quote
  when there is one, and gives it back when no match follows.
\<close>

definition url_at :: "string \<Rightarrow> (string \<times> string) option" where
  "url_at s =
     (case s of
        [] \<Rightarrow> find_close [] s
      | c # cs \<Rightarrow>
          if c = CHR 0x27 \<or> c = CHR 0x22 then
            (case find_close [c] cs of
               Some m \<Rightarrow> Some m
             | None \<Rightarrow> find_close [] s)
          else find_close [] s)"

lemma find_close_length: "find_close q s = Some (t, r) \<Longrightarrow> length r \<le> length s"
  by (induction s arbitrary: t r) (auto split: if_splits option.splits)

lemma url_at_length: "url_at s = Some (t, r) \<Longrightarrow> length r \<le> length s"
  by (auto simp: url_at_def split: list.splits if_splits option.splits
      dest: find_close_length)

text \<open>The \<^verbatim>\<open>exec\<close> loop: the second group of every match, left to right.\<close>

function css_url_matches :: "string \<Rightarrow> string list" where
  "css_url_matches [] = []"
| "css_url_matches (c # cs) =
     (if prefix ''url('' (c # cs) then
        (case url_at (drop 4 (c # cs)) of
           Some (t, r) \<Rightarrow> t # css_url_matches r
         | None \<Rightarrow> css_url_matches cs)
      else css_url_matches cs)"
  by pat_completeness auto
termination
proof (relation "measure length")
  show "wf (measure length)" by simp
next
  fix c cs x2 t r
  assume p: "prefix ''url('' (c # cs)" and u: "url_at (drop 4 (c # cs)) = Some x2"
    and x: "(t, r) = x2"
  from u x have "length r \<le> length (drop 4 (c # cs))"
    using url_at_length by metis
  then show "(r, c # cs) \<in> measure length" by simp
qed simp_all

text \<open>\<^verbatim>\<open>relUrl.split('#')[0].split('?')[0]\<close>\<close>

definition cleanRelUrl :: "string \<Rightarrow> string" where
  "cleanRelUrl relUrl = takeWhile (\<lambda>c. c \<noteq> CHR ''?'') (takeWhile (\<lambda>c. c \<noteq> CHR ''#'') relUrl)"

text \<open>The destination of a stylesheet reference: \<open>filename\<close> and \<open>filepath\<close> of the loop.\<close>

definition css_filepath :: "lib \<Rightarrow> string \<Rightarrow> string" where
  "css_filepath l relUrl = path_join l (ASSETS_DIR l) (path_basename l (cleanRelUrl relUrl))"

text \<open>
  The second loop of \<open>processCss\<close>. \<^verbatim>\<open>new URL(relUrl, baseUrl)\<close> stands outside any
  \<^verbatim>\<open>try\<close>: when it throws, the exception leaves \<open>processCss\<close>.
\<close>

fun css_downloads :: "lib \<Rightarrow> net \<Rightarrow> string \<Rightarrow> string list \<Rightarrow> world \<Rightarrow> outcome" where
  "css_downloads l n baseUrl [] w = Inr w"
| "css_downloads l n baseUrl (relUrl # urls) w =
     (case URL l relUrl (Some baseUrl) of
        None \<Rightarrow> Inl (InvalidURL, w)
      | Some a \<Rightarrow>
          css_downloads l n baseUrl urls (snd (downloadFile n (href a) (css_filepath l relUrl) w)))"

definition css_candidates :: "string \<Rightarrow> string list" where
  "css_candidates cssText =
     filter (\<lambda>u. \<not> prefix ''data:'' u \<and> \<not> prefix ''http'' u) (css_url_matches cssText)"

definition processCss :: "lib \<Rightarrow> net \<Rightarrow> string \<Rightarrow> string \<Rightarrow> world \<Rightarrow> outcome" where
  "processCss l n cssContent baseUrl w = css_downloads l n baseUrl (css_candidates cssContent) w"

subsection \<open>addAsset and the collection passes\<close>

record asset =
  url :: string
  filepath :: string
  isCss :: bool
  originalUrl :: string

text \<open>
  \<open>addAsset\<close> returns the new attribute value (\<open>None\<close> for \<^verbatim>\<open>undefined\<close>) and the queue
  \<^verbatim>\<open>assetsToDownload\<close>. Both constructor calls are inside the \<^verbatim>\<open>try\<close>.
\<close>

definition localDir :: "lib \<Rightarrow> string \<Rightarrow> string \<Rightarrow> string" where
  "localDir l absoluteUrl filename =
     (if \<not> sublist ''/assets/'' absoluteUrl \<and> filename = ''manifest.json'' then OUT_DIR l
      else ASSETS_DIR l)"

definition addAsset :: "lib \<Rightarrow> string \<Rightarrow> bool \<Rightarrow> asset list \<Rightarrow> string option \<times> asset list" where
  "addAsset l u css q =
     (if u = [] then (None, q)
      else if prefix ''data:'' u then (None, q)
      else
        (case URL l u (Some BASE_URL) of
           None \<Rightarrow> (Some u, q)
         | Some a \<Rightarrow>
             (let absoluteUrl = href a in
              case URL l absoluteUrl None of
                None \<Rightarrow> (Some u, q)
              | Some b \<Rightarrow>
                  (let filename = path_basename l (pathname b);
                       d = localDir l absoluteUrl filename
                   in (Some (if d = OUT_DIR l then ''./'' @ filename else ''./assets/'' @ filename),
                       q @ [\<lparr>url = absoluteUrl, filepath = path_join l d filename,
                             isCss = css, originalUrl = u\<rparr>])))))"

text \<open>
  \<^verbatim>\<open>$(el).attr(name)\<close> and \<^verbatim>\<open>$(el).attr(name, value)\<close>. Setting an attribute that exists
  keeps its place; cheerio leaves the element alone when the value is \<^verbatim>\<open>undefined\<close>.
\<close>

definition attr :: "node \<Rightarrow> string \<Rightarrow> string option" where
  "attr el name = (case el of Element t as \<Rightarrow> map_of as name | Markup s \<Rightarrow> None)"

definition set_attr :: "node \<Rightarrow> string \<Rightarrow> string option \<Rightarrow> node" where
  "set_attr el name v =
     (case v of
        None \<Rightarrow> el
      | Some x \<Rightarrow> (case el of Element t as \<Rightarrow> Element t (AList.update name x as) | Markup s \<Rightarrow> el))"

definition has_tag :: "string \<Rightarrow> node \<Rightarrow> bool" where
  "has_tag t el = (case el of Element t' as \<Rightarrow> t' = t | Markup s \<Rightarrow> False)"

text \<open>\<^verbatim>\<open>$(selector).each(callback)\<close> with a callback that edits the element and the queue.\<close>

fun each :: "(node \<Rightarrow> bool) \<Rightarrow> (node \<Rightarrow> 's \<Rightarrow> node \<times> 's) \<Rightarrow> node list \<Rightarrow> 's \<Rightarrow> node list \<times> 's" where
  "each sel f [] s = ([], s)"
| "each sel f (el # els) s =
     (if sel el then
        (case f el s of (el', s') \<Rightarrow>
           (case each sel f els s' of (els', s'') \<Rightarrow> (el' # els', s'')))
      else (case each sel f els s of (els', s'') \<Rightarrow> (el # els', s'')))"

definition validRels :: "string list" where
  "validRels = [''stylesheet'', ''icon'', ''manifest'', ''apple-touch-icon'', ''shortcut icon'']"

definition link_callback :: "lib \<Rightarrow> node \<Rightarrow> asset list \<Rightarrow> node \<times> asset list" where
  "link_callback l el q =
     (case attr el ''href'' of
        None \<Rightarrow> (el, q)
      | Some h \<Rightarrow>
          if h \<noteq> [] \<and> (case attr el ''rel'' of None \<Rightarrow> False | Some r \<Rightarrow> r \<in> set validRels) then
            (case addAsset l h (attr el ''rel'' = Some ''stylesheet'') q of
               (newPath, q') \<Rightarrow> (set_attr el ''href'' newPath, q'))
          else (el, q))"

text \<open>The callback of the script, image and meta passes, for the attribute \<open>name\<close>.\<close>

definition src_callback :: "lib \<Rightarrow> string \<Rightarrow> node \<Rightarrow> asset list \<Rightarrow> node \<times> asset list" where
  "src_callback l name el q =
     (case attr el name of
        None \<Rightarrow> (el, q)
      | Some s \<Rightarrow>
          if s \<noteq> [] then
            (case addAsset l s False q of (newPath, q') \<Rightarrow> (set_attr el name newPath, q'))
          else (el, q))"

definition is_badge :: "node \<Rightarrow> bool" where
  "is_badge el =
     (has_tag ''script'' el \<and>
      (case attr el ''src'' of None \<Rightarrow> False | Some s \<Rightarrow> sublist ''badge.js'' s))"

definition is_meta_image :: "node \<Rightarrow> bool" where
  "is_meta_image el =
     (has_tag ''meta'' el \<and>
      (attr el ''property'' = Some ''og:image'' \<or> attr el ''name'' = Some ''twitter:image''))"

text \<open>
  Steps 2 and 3 of \<open>main\<close> up to the download loop: the badge is removed, then the link,
  script, image and meta passes run in this order over the whole document.
\<close>

definition collect :: "lib \<Rightarrow> node list \<Rightarrow> node list \<times> asset list" where
  "collect l doc =
     (case each (has_tag ''link'') (link_callback l) (filter (\<lambda>el. \<not> is_badge el) doc) [] of
        (d1, q1) \<Rightarrow>
     (case each (has_tag ''script'') (src_callback l ''src'') d1 q1 of
        (d2, q2) \<Rightarrow>
     (case each (has_tag ''img'') (src_callback l ''src'') d2 q2 of
        (d3, q3) \<Rightarrow>
      each is_meta_image (src_callback l ''content'') d3 q3)))"

subsection \<open>The download loop and main\<close>

fun download_all :: "lib \<Rightarrow> net \<Rightarrow> asset list \<Rightarrow> world \<Rightarrow> outcome" where
  "download_all l n [] w = Inr w"
| "download_all l n (a # as) w =
     (case downloadFile n (url a) (filepath a) w of
        (dat, w1) \<Rightarrow>
          (case dat of
             None \<Rightarrow> download_all l n as w1
           | Some d \<Rightarrow>
               if isCss a then
                 (case processCss l n d (url a) w1 of
                    Inl e \<Rightarrow> Inl e
                  | Inr w2 \<Rightarrow> download_all l n as w2)
               else download_all l n as w1))"

definition write_index :: "lib \<Rightarrow> node list \<Rightarrow> world \<Rightarrow> outcome" where
  "write_index l doc w =
     (case writeFileSync (files w) (path_join l (OUT_DIR l) ''index.html'') (cheerio_html l doc) of
        Inl e \<Rightarrow> Inl (e, w)
      | Inr fs' \<Rightarrow> Inr (w\<lparr>files := fs'\<rparr>))"

text \<open>\<open>main\<close> of sync.js, started on the file system \<open>fs\<close> with no request made yet.\<close>

definition main :: "lib \<Rightarrow> net \<Rightarrow> snippets \<Rightarrow> filesystem \<Rightarrow> outcome" where
  "main l n sn fs =
     (case root_document n of
        None \<Rightarrow> Inl (EntryFetchFailed, \<lparr>files = fs, requests = []\<rparr>)
      | Some doc \<Rightarrow>
          (case collect l doc of
             (doc', q) \<Rightarrow>
               (case download_all l n q \<lparr>files = fs, requests = []\<rparr> of
                  Inl e \<Rightarrow> Inl e
                | Inr w \<Rightarrow> write_index l (cheerio_append l (formFixerScript sn) doc') w)))"

text \<open>The whole script: the module-level statements, then \<open>main()\<close>.\<close>

definition sync_js :: "lib \<Rightarrow> net \<Rightarrow> snippets \<Rightarrow> filesystem \<Rightarrow> outcome" where
  "sync_js l n sn fs = main l n sn (ensure_assets_dir l fs)"

section \<open>The first revision of the script: JavaScript post-processing and the final audit\<close>

text \<open>
  The oldest of the revisions kept beside sync.js has the same \<open>downloadFile\<close>,
  \<open>processCss\<close>, \<open>addAsset\<close>, passes and download loop, and three more steps.

  As it is stored, this revision does not load: the template literal of the chat widget
  (lines 294 and 364) opens and closes with a backslash before the backtick, which is a
  syntax error, so Node runs none of the file. The definitions of this section are of the
  script with these two backslashes removed; steps 4 and 5 follow lines 182 to 231 as
  they stand.
\<close>

subsection \<open>The text of a file\<close>

text \<open>
  \<^verbatim>\<open>fs.readFileSync(path, 'utf8')\<close> decodes the bytes of the file into a JavaScript
  string, a list of 16-bit code units (integers here). A byte sequence that is
  not UTF-8 becomes U+FFFD, one for every maximal prefix of a well-formed sequence, and
  a code point from U+10000 on becomes a surrogate pair.
\<close>

type_synonym jstring = "int list"

definition continuation :: "int \<Rightarrow> bool" where
  "continuation b = (0x80 \<le> b \<and> b \<le> 0xBF)"

definition needed :: "int \<Rightarrow> nat" where
  "needed lead =
     (if 0xC2 \<le> lead \<and> lead \<le> 0xDF then 1
      else if 0xE0 \<le> lead \<and> lead \<le> 0xEF then 2
      else if 0xF0 \<le> lead \<and> lead \<le> 0xF4 then 3
      else 0)"

definition first_continuation :: "int \<Rightarrow> int \<Rightarrow> bool" where
  "first_continuation lead b =
     (if lead = 0xE0 then 0xA0 \<le> b \<and> b \<le> 0xBF
      else if lead = 0xED then 0x80 \<le> b \<and> b \<le> 0x9F
      else if lead = 0xF0 then 0x90 \<le> b \<and> b \<le> 0xBF
      else if lead = 0xF4 then 0x80 \<le> b \<and> b \<le> 0x8F
      else continuation b)"

text \<open>The number of bytes after \<open>lead\<close> that continue its sequence.\<close>

definition continued :: "int \<Rightarrow> int list \<Rightarrow> nat" where
  "continued lead bs =
     (case bs of
        [] \<Rightarrow> 0
      | b # r \<Rightarrow>
          if 0 < needed lead \<and> first_continuation lead b
          then 1 + length (takeWhile continuation (take (needed lead - 1) r))
          else 0)"

definition code_point :: "int \<Rightarrow> int list \<Rightarrow> int" where
  "code_point lead bs =
     foldl (\<lambda>v b. v * 64 + (b - 0x80))
       (lead - (if needed lead = 1 then 0xC0 else if needed lead = 2 then 0xE0 else 0xF0)) bs"

definition code_units :: "int \<Rightarrow> jstring" where
  "code_units cp =
     (if cp < 0x10000 then [cp]
      else [0xD800 + (cp - 0x10000) div 0x400, 0xDC00 + (cp - 0x10000) mod 0x400])"

fun utf8_decode :: "int list \<Rightarrow> jstring" where
  "utf8_decode [] = []"
| "utf8_decode (b # bs) =
     (if b < 0x80 then b # utf8_decode bs
      else if 0 < needed b \<and> continued b bs = needed b
      then code_units (code_point b (take (needed b) bs)) @ utf8_decode (drop (needed b) bs)
      else 0xFFFD # utf8_decode (drop (continued b bs) bs))"

text \<open>
  \<^verbatim>\<open>fs.writeFileSync(path, string)\<close> encodes the string as UTF-8: a surrogate pair is one
  code point, a lone surrogate is written as U+FFFD.
\<close>

definition utf8_bytes :: "int \<Rightarrow> int list" where
  "utf8_bytes cp =
     (if cp < 0x80 then [cp]
      else if cp < 0x800 then [0xC0 + cp div 64, 0x80 + cp mod 64]
      else if cp < 0x10000 then [0xE0 + cp div 4096, 0x80 + cp div 64 mod 64, 0x80 + cp mod 64]
      else [0xF0 + cp div 262144, 0x80 + cp div 4096 mod 64, 0x80 + cp div 64 mod 64,
            0x80 + cp mod 64])"

definition high_surrogate :: "int \<Rightarrow> bool" where
  "high_surrogate u = (0xD800 \<le> u \<and> u \<le> 0xDBFF)"

definition low_surrogate :: "int \<Rightarrow> bool" where
  "low_surrogate u = (0xDC00 \<le> u \<and> u \<le> 0xDFFF)"

fun utf8_encode :: "jstring \<Rightarrow> int list" where
  "utf8_encode [] = []"
| "utf8_encode (u # us) =
     (if high_surrogate u \<and> us \<noteq> [] \<and> low_surrogate (hd us)
      then utf8_bytes (0x10000 + (u - 0xD800) * 0x400 + (hd us - 0xDC00)) @ utf8_encode (tl us)
      else utf8_bytes (if high_surrogate u \<or> low_surrogate u then 0xFFFD else u) @ utf8_encode us)"

definition read_text :: "string \<Rightarrow> jstring" where
  "read_text bytes = utf8_decode (map of_char bytes)"

definition written_text :: "jstring \<Rightarrow> string" where
  "written_text t = map char_of (utf8_encode t)"

text \<open>A string of the model as a JavaScript string.\<close>

definition wide :: "string \<Rightarrow> jstring" where
  "wide s = map of_char s"

text \<open>
  The argument of \<^verbatim>\<open>new URL(remoteUrl)\<close> as a string of the model. A match of the
  expression below has its scheme and host in ASCII, and the parser writes every other
  code point of the input percent-encoded in UTF-8, so the URL of the match is the URL
  of the match with these code points already encoded.
\<close>

definition hex_digit :: "int \<Rightarrow> char" where
  "hex_digit k = ''0123456789ABCDEF'' ! nat k"

definition url_text :: "jstring \<Rightarrow> string" where
  "url_text m =
     concat (map (\<lambda>b. if b < 0x80 then [char_of b]
                       else [CHR ''%'', hex_digit (b div 16), hex_digit (b mod 16)])
               (utf8_encode m))"

subsection \<open>Regular expressions and string replacement\<close>

text \<open>
  A global \<^verbatim>\<open>match\<close> of a literal followed by one or more characters of a class: every
  match takes the longest run, and the search goes on after it.
\<close>

function regex_scan :: "'a list \<Rightarrow> ('a \<Rightarrow> bool) \<Rightarrow> 'a list \<Rightarrow> 'a list list" where
  "regex_scan lit ok [] = []"
| "regex_scan lit ok (c # cs) =
     (if prefix lit (c # cs) \<and> takeWhile ok (drop (length lit) (c # cs)) \<noteq> [] then
        (lit @ takeWhile ok (drop (length lit) (c # cs))) #
          regex_scan lit ok (dropWhile ok (drop (length lit) (c # cs)))
      else regex_scan lit ok cs)"
  by pat_completeness auto
termination
proof (relation "measure (\<lambda>(lit, ok, s). length s)")
  show "wf (measure (\<lambda>(lit, ok, s). length s))" by simp
next
  fix lit :: "'a list" and ok :: "'a \<Rightarrow> bool" and c cs
  assume a: "prefix lit (c # cs) \<and> takeWhile ok (drop (length lit) (c # cs)) \<noteq> []"
  define xs where "xs = drop (length lit) (c # cs)"
  have "length (takeWhile ok xs) + length (dropWhile ok xs) = length xs"
    by (metis length_append takeWhile_dropWhile_id)
  moreover have "0 < length (takeWhile ok xs)" using a by (simp add: xs_def)
  ultimately have "length (dropWhile ok xs) < length xs"
    by linarith
  moreover have "length xs \<le> length (c # cs)" by (simp add: xs_def)
  ultimately show "((lit, ok, dropWhile ok (drop (length lit) (c # cs))), (lit, ok, c # cs))
      \<in> measure (\<lambda>(lit, ok, s). length s)"
    by (simp add: xs_def)
qed simp_all

text \<open>The class \<^verbatim>\<open>\s\<close> on code units.\<close>

definition js_space :: "int \<Rightarrow> bool" where
  "js_space c =
     (c \<in> {0x09, 0x0A, 0x0B, 0x0C, 0x0D, 0x20, 0xA0, 0x1680, 0x2028, 0x2029, 0x202F, 0x205F,
            0x3000, 0xFEFF} \<or>
      (0x2000 \<le> c \<and> c \<le> 0x200A))"

definition remote_prefix :: string where
  "remote_prefix = ''https://qtrypzzcjebvfcihiynt.supabase.co/storage/v1/''"

text \<open>The class \<^verbatim>\<open>[^\s'"]\<close>.\<close>

definition url_body :: "int \<Rightarrow> bool" where
  "url_body c = (\<not> js_space c \<and> c \<noteq> 0x27 \<and> c \<noteq> 0x22)"

text \<open>\<^verbatim>\<open>jsContent.match(remoteUrlRegex) || []\<close>\<close>

definition remote_matches :: "jstring \<Rightarrow> jstring list" where
  "remote_matches jsContent = regex_scan (wide remote_prefix) url_body jsContent"

text \<open>
  \<^verbatim>\<open>allContent.match(/\.\/assets\/[a-zA-Z0-9._-]+/g) || []\<close>. The literal and the class
  are ASCII, and decoding keeps every ASCII byte and puts at least one code unit that is
  not ASCII for every run of other bytes, so the matches in the decoded text are the
  matches in the bytes.
\<close>

definition local_asset_matches :: "string \<Rightarrow> string list" where
  "local_asset_matches allContent =
     regex_scan ''./assets/''
       (\<lambda>c. c \<in> set ''abcdefghijklmnopqrstuvwxyzABCDEFGHIJKLMNOPQRSTUVWXYZ0123456789._-'')
       allContent"

text \<open>
  \<^verbatim>\<open>s.split(pat).join(rep)\<close>: every occurrence of \<open>pat\<close>, found left to right without
  overlap, becomes \<open>rep\<close>. An empty separator splits between all code units.
\<close>

function replace_all :: "'a list \<Rightarrow> 'a list \<Rightarrow> 'a list \<Rightarrow> 'a list" where
  "replace_all pat rep [] = []"
| "replace_all pat rep (c # cs) =
     (if pat = [] then c # concat (map (\<lambda>x. rep @ [x]) cs)
      else if prefix pat (c # cs) then rep @ replace_all pat rep (drop (length pat) (c # cs))
      else c # replace_all pat rep cs)"
  by pat_completeness auto
termination
  by (relation "measure (\<lambda>(pat, rep, s). length s)") auto

text \<open>\<^verbatim>\<open>[...new Set(xs)]\<close>: the first occurrence of every element, in order.\<close>

fun unique_from :: "'a list \<Rightarrow> 'a list \<Rightarrow> 'a list" where
  "unique_from seen [] = []"
| "unique_from seen (x # xs) =
     (if x \<in> set seen then unique_from seen xs else x # unique_from (seen @ [x]) xs)"

subsection \<open>Reading directories\<close>

definition child_name :: "string \<Rightarrow> string \<Rightarrow> string option" where
  "child_name dir p =
     (let name = drop (length dir + 1) p in
      if prefix (dir @ ''/'') p \<and> name \<noteq> [] \<and> CHR ''/'' \<notin> set name then Some name else None)"

definition readdirSync :: "filesystem \<Rightarrow> string \<Rightarrow> error + string list" where
  "readdirSync fs dir =
     (case map_of fs dir of
        None \<Rightarrow> Inl ENOENT
      | Some (File d) \<Rightarrow> Inl ENOTDIR
      | Some Dir \<Rightarrow> Inr (List.map_filter (child_name dir) (map fst fs)))"

subsection \<open>Step 2: fixes to the document\<close>

definition set_lang :: "node \<Rightarrow> node" where
  "set_lang el = (if has_tag ''html'' el then set_attr el ''lang'' (Some ''fr'') else el)"

definition add_alt :: "node \<Rightarrow> node" where
  "add_alt el =
     (if has_tag ''img'' el \<and> (attr el ''alt'' = None \<or> attr el ''alt'' = Some [])
      then set_attr el ''alt'' (Some ''Global Indesign Studio Asset'') else el)"

definition secure_link :: "node \<Rightarrow> node" where
  "secure_link el =
     (case attr el ''href'' of
        None \<Rightarrow> el
      | Some h \<Rightarrow>
          if has_tag ''a'' el \<and> prefix ''http'' h \<and>
             \<not> sublist ''global-indesign.base44.app'' h \<and> \<not> sublist ''johnny88778877.github.io'' h
          then set_attr (set_attr el ''target'' (Some ''_blank'')) ''rel'' (Some ''noopener noreferrer'')
          else el)"

definition audit_fixes :: "node list \<Rightarrow> node list" where
  "audit_fixes doc = map secure_link (map add_alt (map set_lang doc))"

subsection \<open>Step 4: remote URLs in the downloaded scripts\<close>

text \<open>
  The loop over the matches of one file. Its state is \<open>jsContent\<close>, \<open>modified\<close> and the
  world. Both constructor calls are inside the \<^verbatim>\<open>try\<close>; \<open>downloadFile\<close> is called only
  when the destination does not exist.
\<close>

fun js_matches_loop :: "lib \<Rightarrow> net \<Rightarrow> jstring list \<Rightarrow> jstring \<times> bool \<times> world \<Rightarrow> jstring \<times> bool \<times> world" where
  "js_matches_loop l n [] st = st"
| "js_matches_loop l n (remoteUrl # ms) (jsContent, modified, w) =
     (case URL l (url_text remoteUrl) None of
        None \<Rightarrow> js_matches_loop l n ms (jsContent, modified, w)
      | Some a \<Rightarrow>
          (let absoluteUrl = href a in
           case URL l absoluteUrl None of
             None \<Rightarrow> js_matches_loop l n ms (jsContent, modified, w)
           | Some b \<Rightarrow>
               (let filename = path_basename l (takeWhile (\<lambda>c. c \<noteq> CHR ''?'') (pathname b));
                    localPath = ''./assets/'' @ filename;
                    fp = path_join l (ASSETS_DIR l) filename;
                    w' = (if \<not> existsSync (files w) fp
                          then snd (downloadFile n absoluteUrl fp w) else w)
                in js_matches_loop l n ms
                     (replace_all remoteUrl (wide localPath) jsContent, True, w'))))"

fun js_postprocess :: "lib \<Rightarrow> net \<Rightarrow> string list \<Rightarrow> world \<Rightarrow> outcome" where
  "js_postprocess l n [] w = Inr w"
| "js_postprocess l n (jsFile # rest) w =
     (let jsPath = path_join l (ASSETS_DIR l) jsFile in
      case readFileSync (files w) jsPath of
        Inl e \<Rightarrow> Inl (e, w)
      | Inr bytes \<Rightarrow>
          (let jsContent = read_text bytes in
           case js_matches_loop l n (remote_matches jsContent) (jsContent, False, w) of
             (c', modified, w') \<Rightarrow>
               if modified then
                 (case writeFileSync (files w') jsPath (written_text c') of
                    Inl e \<Rightarrow> Inl (e, w')
                  | Inr fs' \<Rightarrow> js_postprocess l n rest (w'\<lparr>files := fs'\<rparr>))
               else js_postprocess l n rest w'))"

text \<open>
  What the \<^verbatim>\<open>try\<close> block computes for a match before it touches the disk:
  \<open>absoluteUrl\<close> and \<open>filename\<close>, or nothing when a constructor throws.
\<close>

definition js_local :: "lib \<Rightarrow> jstring \<Rightarrow> (string \<times> string) option" where
  "js_local l remoteUrl =
     (case URL l (url_text remoteUrl) None of
        None \<Rightarrow> None
      | Some a \<Rightarrow>
          (case URL l (href a) None of
             None \<Rightarrow> None
           | Some b \<Rightarrow>
               Some (href a, path_basename l (takeWhile (\<lambda>c. c \<noteq> CHR ''?'') (pathname b)))))"

text \<open>
  The rewrite as the specification words it: the text with every match of the
  expression replaced by the local path of the match. \<open>substitute lit ok f s\<close> walks \<open>s\<close>
  as the global match does and puts \<open>f m\<close> for every match \<open>m\<close>.
\<close>

function substitute :: "'a list \<Rightarrow> ('a \<Rightarrow> bool) \<Rightarrow> ('a list \<Rightarrow> 'a list) \<Rightarrow> 'a list \<Rightarrow> 'a list" where
  "substitute lit ok f [] = []"
| "substitute lit ok f (c # cs) =
     (if prefix lit (c # cs) \<and> takeWhile ok (drop (length lit) (c # cs)) \<noteq> [] then
        f (lit @ takeWhile ok (drop (length lit) (c # cs))) @
          substitute lit ok f (dropWhile ok (drop (length lit) (c # cs)))
      else c # substitute lit ok f cs)"
  by pat_completeness auto
termination
proof (relation "measure (\<lambda>(lit, ok, f, s). length s)")
  show "wf (measure (\<lambda>(lit, ok, f, s). length s))" by simp
next
  fix lit :: "'a list" and ok :: "'a \<Rightarrow> bool" and f :: "'a list \<Rightarrow> 'a list" and c cs
  assume a: "prefix lit (c # cs) \<and> takeWhile ok (drop (length lit) (c # cs)) \<noteq> []"
  define xs where "xs = drop (length lit) (c # cs)"
  have "length (takeWhile ok xs) + length (dropWhile ok xs) = length xs"
    by (metis length_append takeWhile_dropWhile_id)
  moreover have "0 < length (takeWhile ok xs)" using a by (simp add: xs_def)
  ultimately have "length (dropWhile ok xs) < length xs"
    by linarith
  moreover have "length xs \<le> length (c # cs)" by (simp add: xs_def)
  ultimately show "((lit, ok, f, dropWhile ok (drop (length lit) (c # cs))), (lit, ok, f, c # cs))
      \<in> measure (\<lambda>(lit, ok, f, s). length s)"
    by (simp add: xs_def)
qed simp_all

definition local_path :: "lib \<Rightarrow> jstring \<Rightarrow> jstring" where
  "local_path l m =
     (case js_local l m of None \<Rightarrow> m | Some (u, filename) \<Rightarrow> wide (''./assets/'' @ filename))"

definition every_match_replaced :: "lib \<Rightarrow> jstring \<Rightarrow> jstring" where
  "every_match_replaced l jsContent =
     substitute (wide remote_prefix) url_body (local_path l) jsContent"

text \<open>
  \<open>usable l m\<close>: both constructors accept the match \<open>m\<close> and the file name is a single
  name. \<open>inner_match_first ms\<close>: the loop reaches a match while a different match that
  contains it has not been reached yet.
\<close>

definition usable :: "lib \<Rightarrow> jstring \<Rightarrow> bool" where
  "usable l m = (case js_local l m of None \<Rightarrow> False | Some (u, filename) \<Rightarrow> CHR ''/'' \<notin> set filename)"

definition inner_match_first :: "'a list list \<Rightarrow> bool" where
  "inner_match_first ms =
     list_ex (\<lambda>i. list_ex (\<lambda>m. m \<noteq> ms ! i \<and> sublist (ms ! i) m \<and> m \<notin> set (take i ms)) ms)
       [0..<length ms]"

text \<open>The destination of an absolute URL in step 4.\<close>

definition js_filepath :: "lib \<Rightarrow> string \<Rightarrow> string" where
  "js_filepath l absoluteUrl =
     (case URL l absoluteUrl None of
        None \<Rightarrow> []
      | Some b \<Rightarrow>
          path_join l (ASSETS_DIR l)
            (path_basename l (takeWhile (\<lambda>c. c \<noteq> CHR ''?'') (pathname b))))"

subsection \<open>Step 5: the final audit\<close>

fun read_all :: "filesystem \<Rightarrow> string list \<Rightarrow> error + string list" where
  "read_all fs [] = Inr []"
| "read_all fs (p # ps) =
     (case readFileSync fs p of
        Inl e \<Rightarrow> Inl e
      | Inr d \<Rightarrow> (case read_all fs ps of Inl e \<Rightarrow> Inl e | Inr ds \<Rightarrow> Inr (d # ds)))"

definition join_with :: "string \<Rightarrow> string list \<Rightarrow> string" where
  "join_with sep xs = (case xs of [] \<Rightarrow> [] | y # ys \<Rightarrow> y @ concat (map (\<lambda>z. sep @ z) ys))"

text \<open>
  The audit reads index.html of the output directory and the scripts, and returns the
  paths it warns about. It is given the file system and returns no file system.
\<close>

definition final_audit :: "lib \<Rightarrow> filesystem \<Rightarrow> string list \<Rightarrow> error + string list" where
  "final_audit l fs jsFiles =
     (case readFileSync fs (path_join l (OUT_DIR l) ''index.html'') of
        Inl e \<Rightarrow> Inl e
      | Inr html \<Rightarrow>
          (case read_all fs (map (path_join l (ASSETS_DIR l)) jsFiles) of
             Inl e \<Rightarrow> Inl e
           | Inr texts \<Rightarrow>
               Inr (filter
                     (\<lambda>assetPath.
                        \<not> existsSync fs (path_join l (ASSETS_DIR l) (path_basename l assetPath)) \<and>
                        path_basename l assetPath \<noteq> ''assets'')
                     (unique_from [] (local_asset_matches (html @ join_with '' '' texts))))))"

subsection \<open>main of the first revision\<close>

text \<open>
  The result is the world and the warnings of the audit, or the exception that ended the
  run and the world it left.
\<close>

definition main_rev1 :: "lib \<Rightarrow> net \<Rightarrow> snippets \<Rightarrow> filesystem \<Rightarrow> (error \<times> world) + world \<times> string list" where
  "main_rev1 l n sn fs =
     (case root_document n of
        None \<Rightarrow> Inl (EntryFetchFailed, \<lparr>files = fs, requests = []\<rparr>)
      | Some doc \<Rightarrow>
          (case collect l (audit_fixes doc) of
             (doc', q) \<Rightarrow>
               (case download_all l n q \<lparr>files = fs, requests = []\<rparr> of
                  Inl x \<Rightarrow> Inl x
                | Inr w \<Rightarrow>
                    (case readdirSync (files w) (ASSETS_DIR l) of
                       Inl e \<Rightarrow> Inl (e, w)
                     | Inr names \<Rightarrow>
                         (case js_postprocess l n (filter (suffix ''.js'') names) w of
                            Inl x \<Rightarrow> Inl x
                          | Inr w2 \<Rightarrow>
                              (case final_audit l (files w2) (filter (suffix ''.js'') names) of
                                 Inl e \<Rightarrow> Inl (e, w2)
                               | Inr warnings \<Rightarrow>
                                   (case write_index l
                                           (cheerio_append l (chatbotScript sn)
                                              (cheerio_append l (formFixerScript sn) doc')) w2 of
                                      Inl x \<Rightarrow> Inl x
                                    | Inr w3 \<Rightarrow> Inr (w3, warnings))))))))"

section \<open>The library on explicit inputs\<close>

text \<open>
  \<open>node_lib\<close> is used only to run the model on the explicit inputs of the closed
  theorems below. Its functions follow Node on a fragment of the inputs:
  \<^item> \<open>posix_basename\<close> and \<open>posix_join\<close> are \<^verbatim>\<open>path.basename\<close> and \<^verbatim>\<open>path.join\<close> of the
    POSIX flavour;
  \<^item> \<open>node_URL\<close> is the WHATWG parser and serialiser for http and https URLs whose host is
    made of lower-case letters, digits, hyphens and dots with a last label that starts
    with a letter, written with the characters of \<open>url_char\<close> only. It is \<open>None\<close> where
    Node throws for a missing host or a relative reference without a base, and also on
    every input outside this fragment, which the closed theorems never use;
  \<^item> the document is serialised tag by tag, and appended markup is kept verbatim.
\<close>

fun split_on :: "char \<Rightarrow> string \<Rightarrow> string list" where
  "split_on c [] = [[]]"
| "split_on c (x # xs) =
     (case split_on c xs of
        [] \<Rightarrow> [[x]]
      | p # ps \<Rightarrow> if x = c then [] # p # ps else (x # p) # ps)"

definition posix_basename :: "string \<Rightarrow> string" where
  "posix_basename p =
     rev (takeWhile (\<lambda>c. c \<noteq> CHR ''/'') (dropWhile (\<lambda>c. c = CHR ''/'') (rev p)))"

fun normalizeString :: "bool \<Rightarrow> string list \<Rightarrow> string list \<Rightarrow> string list" where
  "normalizeString ab st [] = st"
| "normalizeString ab st (s # ss) =
     (if s = [] \<or> s = ''.'' then normalizeString ab st ss
      else if s = ''..'' then
        (if st \<noteq> [] \<and> last st \<noteq> ''..'' then normalizeString ab (butlast st) ss
         else if ab then normalizeString ab st ss
         else normalizeString ab (st @ [s]) ss)
      else normalizeString ab (st @ [s]) ss)"

definition posix_normalize :: "string \<Rightarrow> string" where
  "posix_normalize p =
     (if p = [] then ''.''
      else
        (let ab = (hd p = CHR ''/'');
             trailing = (last p = CHR ''/'');
             q = join_with ''/'' (normalizeString ab [] (split_on CHR ''/'' p))
         in if q = [] then (if ab then ''/'' else if trailing then ''./'' else ''.'')
            else (if ab then ''/'' else []) @ q @ (if trailing then ''/'' else [])))"

definition posix_join :: "string \<Rightarrow> string \<Rightarrow> string" where
  "posix_join a b =
     (case filter (\<lambda>s. s \<noteq> []) [a, b] of
        [] \<Rightarrow> ''.''
      | ps \<Rightarrow> posix_normalize (join_with ''/'' ps))"

datatype whatwg = Whatwg string string "string list" "string option" "string option"

definition lower_alnum :: "char \<Rightarrow> bool" where
  "lower_alnum c = (c \<in> set ''abcdefghijklmnopqrstuvwxyz0123456789'')"

definition url_char :: "char \<Rightarrow> bool" where
  "url_char c =
     (lower_alnum c \<or> c \<in> set ''ABCDEFGHIJKLMNOPQRSTUVWXYZ'' \<or> c \<in> set ''-._~/?#=&:+,;@!$*()'')"

definition host_ok :: "string \<Rightarrow> bool" where
  "host_ok h =
     (list_all (\<lambda>c. lower_alnum c \<or> c = CHR ''-'' \<or> c = CHR ''.'') h \<and>
      \<not> sublist ''xn--'' h \<and>
      (case last (split_on CHR ''.'' h) of
         [] \<Rightarrow> False
       | c # cs \<Rightarrow> c \<in> set ''abcdefghijklmnopqrstuvwxyz''))"

definition cut_at :: "char \<Rightarrow> string \<Rightarrow> string \<times> string option" where
  "cut_at c s =
     (takeWhile (\<lambda>x. x \<noteq> c) s,
      case dropWhile (\<lambda>x. x \<noteq> c) s of [] \<Rightarrow> None | x # r \<Rightarrow> Some r)"

text \<open>The path state: a double-dot segment removes the last segment, a single-dot
  segment is dropped, and either leaves an empty segment when it is the last.\<close>

fun dot_segments :: "string list \<Rightarrow> string list \<Rightarrow> string list" where
  "dot_segments st [] = st"
| "dot_segments st (s # ss) =
     (if s = ''..'' then dot_segments (if ss = [] then butlast st @ [[]] else butlast st) ss
      else if s = ''.'' then dot_segments (if ss = [] then st @ [[]] else st) ss
      else dot_segments (st @ [s]) ss)"

definition after_slashes :: "string \<Rightarrow> string \<Rightarrow> string option \<Rightarrow> string option \<Rightarrow> whatwg option" where
  "after_slashes sch rest qry frag =
     (let r = dropWhile (\<lambda>c. c = CHR ''/'') rest;
          h = takeWhile (\<lambda>c. c \<noteq> CHR ''/'') r;
          p = dropWhile (\<lambda>c. c \<noteq> CHR ''/'') r
      in if host_ok h then
           Some (Whatwg sch h
                   (case p of [] \<Rightarrow> [[]] | c # cs \<Rightarrow> dot_segments [] (split_on CHR ''/'' cs))
                   qry frag)
         else None)"

definition has_scheme :: "string \<Rightarrow> bool" where
  "has_scheme s =
     (case s of
        [] \<Rightarrow> False
      | c # cs \<Rightarrow>
          c \<in> set ''abcdefghijklmnopqrstuvwxyzABCDEFGHIJKLMNOPQRSTUVWXYZ'' \<and>
          (case dropWhile (\<lambda>x. lower_alnum x \<or> x \<in> set ''ABCDEFGHIJKLMNOPQRSTUVWXYZ+-.'') cs of
             [] \<Rightarrow> False
           | x # r \<Rightarrow> x = CHR '':''))"

definition whatwg_parse :: "string \<Rightarrow> whatwg option \<Rightarrow> whatwg option" where
  "whatwg_parse input base =
     (if \<not> list_all url_char input then None
      else
        (case cut_at CHR ''#'' input of (s1, frag) \<Rightarrow>
         (case cut_at CHR ''?'' s1 of (s2, qry) \<Rightarrow>
            if has_scheme s2 then
              (if prefix ''https://'' s2 then after_slashes ''https'' (drop 8 s2) qry frag
               else if prefix ''http://'' s2 then after_slashes ''http'' (drop 7 s2) qry frag
               else None)
            else
              (case base of
                 None \<Rightarrow> None
               | Some (Whatwg sch h segs bq bf) \<Rightarrow>
                   if prefix ''//'' s2 then after_slashes sch (drop 2 s2) qry frag
                   else if prefix ''/'' s2 then
                     Some (Whatwg sch h (dot_segments [] (split_on CHR ''/'' (tl s2))) qry frag)
                   else if s2 = [] then
                     Some (Whatwg sch h segs (case qry of None \<Rightarrow> bq | Some q \<Rightarrow> Some q) frag)
                   else
                     Some (Whatwg sch h (dot_segments (butlast segs) (split_on CHR ''/'' s2))
                             qry frag)))))"

definition whatwg_obj :: "whatwg \<Rightarrow> url_obj" where
  "whatwg_obj u =
     (case u of Whatwg sch h segs qry frag \<Rightarrow>
        (let p = concat (map (\<lambda>s. ''/'' @ s) segs) in
         \<lparr>href = sch @ ''://'' @ h @ p @
                  (case qry of None \<Rightarrow> [] | Some q \<Rightarrow> ''?'' @ q) @
                  (case frag of None \<Rightarrow> [] | Some f \<Rightarrow> ''#'' @ f),
          pathname = p\<rparr>))"

definition node_URL :: "string \<Rightarrow> string option \<Rightarrow> url_obj option" where
  "node_URL input base =
     (case base of
        None \<Rightarrow> map_option whatwg_obj (whatwg_parse input None)
      | Some b \<Rightarrow>
          (case whatwg_parse b None of
             None \<Rightarrow> None
           | Some pb \<Rightarrow> map_option whatwg_obj (whatwg_parse input (Some pb))))"

definition node_markup :: "node \<Rightarrow> string" where
  "node_markup el =
     (case el of
        Element t as \<Rightarrow>
          ''<'' @ t @ concat (map (\<lambda>(k, v). '' '' @ k @ ''='' @ v) as) @ ''>''
      | Markup s \<Rightarrow> s)"

definition node_lib :: lib where
  "node_lib =
     \<lparr>URL = node_URL, path_basename = posix_basename, path_join = posix_join,
      OUT_DIR = ''/site'',
      cheerio_html = (\<lambda>doc. concat (map node_markup doc)),
      cheerio_append = (\<lambda>s doc. doc @ [Markup s])\<rparr>"

section \<open>Explicit inputs\<close>

text \<open>
  The output directory before a first run (the assets directory is made at module
  level), short stand-ins for the injected snippets, and a network where every request
  fails.
\<close>

definition fresh_fs :: filesystem where
  "fresh_fs = ensure_assets_dir node_lib [(''/site'', Dir)]"

definition demo_snippets :: snippets where
  "demo_snippets =
     \<lparr>formFixerScript = ''<script>form</script>'', chatbotScript = ''<script>chat</script>''\<rparr>"

definition offline :: net where
  "offline = \<lparr>root_document = None, axios_get = (\<lambda>u. None)\<rparr>"

text \<open>Documents and networks of the closed theorems.\<close>

definition one_image :: "node list" where
  "one_image = [Element ''img'' [(''src'', ''/img/logo.png'')]]"

definition twice_doc :: "node list" where
  "twice_doc =
     [Element ''img'' [(''src'', ''/img/logo.png'')], Element ''img'' [(''src'', ''/img/logo.png'')]]"

definition logo_net :: "node list \<Rightarrow> net" where
  "logo_net doc =
     \<lparr>root_document = Some doc,
      axios_get = (\<lambda>u.
        if u = ''https://global-indesign.base44.app/img/logo.png'' then Some ''PNG'' else None)\<rparr>"

definition manifest_doc :: "node list" where
  "manifest_doc =
     [Element ''link'' [(''rel'', ''manifest''), (''href'', ''/manifest.json'')],
      Element ''link'' [(''rel'', ''stylesheet''), (''href'', ''/style.css'')]]"

definition manifest_net :: net where
  "manifest_net =
     \<lparr>root_document = Some manifest_doc,
      axios_get = (\<lambda>u.
        if u = ''https://global-indesign.base44.app/manifest.json'' then Some ''{}''
        else if u = ''https://global-indesign.base44.app/style.css''
        then Some ''body { background: url(manifest.json) }''
        else None)\<rparr>"

definition css_manifest_doc :: "node list" where
  "css_manifest_doc =
     [Element ''link'' [(''rel'', ''manifest''), (''href'', ''/manifest.json'')],
      Element ''link'' [(''rel'', ''stylesheet''), (''href'', ''/css/style.css'')]]"

definition css_manifest_net :: net where
  "css_manifest_net =
     \<lparr>root_document = Some css_manifest_doc,
      axios_get = (\<lambda>u.
        if u = ''https://global-indesign.base44.app/manifest.json'' then Some ''root''
        else if u = ''https://global-indesign.base44.app/css/manifest.json'' then Some ''css''
        else if u = ''https://global-indesign.base44.app/css/style.css''
        then Some ''body { background: url(manifest.json) }''
        else None)\<rparr>"

definition two_logos :: "node list" where
  "two_logos =
     [Element ''img'' [(''src'', ''/img/logo.png'')],
      Element ''img'' [(''src'', ''https://cdn.example.com/brand/logo.png?v=3'')]]"

definition two_logos_net :: net where
  "two_logos_net =
     \<lparr>root_document = Some two_logos,
      axios_get = (\<lambda>u.
        if u = ''https://global-indesign.base44.app/img/logo.png'' then Some ''first''
        else if u = ''https://cdn.example.com/brand/logo.png?v=3'' then Some ''second''
        else None)\<rparr>"

text \<open>
  A stylesheet whose second reference has no host, in a site that serves the stylesheet
  and both images; and the stylesheet of the specification's scenario with its font.
\<close>

definition broken_css :: string where
  "broken_css = ''a { background: url(one.png) } b { background: url(//) } c { background: url(two.png) }''"

definition broken_doc :: "node list" where
  "broken_doc = [Element ''link'' [(''rel'', ''stylesheet''), (''href'', ''/assets/style.css'')]]"

definition broken_net :: net where
  "broken_net =
     \<lparr>root_document = Some broken_doc,
      axios_get = (\<lambda>u.
        if u = ''https://global-indesign.base44.app/assets/style.css'' then Some broken_css
        else if u = ''https://global-indesign.base44.app/assets/one.png'' then Some ''ONE''
        else if u = ''https://global-indesign.base44.app/assets/two.png'' then Some ''TWO''
        else None)\<rparr>"

definition font_css :: string where
  "font_css = ''a { background: url('' @ [CHR 0x27] @ ''../fonts/a.woff2?v=2'' @ [CHR 0x27] @
              '') } b { background: url(data:image/png;base64,AAAA) }''"

definition font_net :: net where
  "font_net =
     \<lparr>root_document = None,
      axios_get = (\<lambda>u. if u = ''https://example.com/fonts/a.woff2?v=2'' then Some ''WOFF2'' else None)\<rparr>"

text \<open>
  Scripts with remote-storage URLs, in an assets directory that holds only the script.
  The first names two URLs twice each, the last time before a no-break space (the bytes
  C2 A0) and an accented letter.
\<close>

definition pdf_url :: string where
  "pdf_url = remote_prefix @ ''object/public/docs/file.pdf?token=xyz''"

definition image_url :: string where
  "image_url = remote_prefix @ ''object/a.png''"

definition pdf_js :: string where
  "pdf_js = ''var a = '' @ [CHR 0x27] @ pdf_url @ [CHR 0x27] @ ''; var b = '' @
            [CHR 0x27] @ pdf_url @ [CHR 0x27] @ ''; f('' @ image_url @ '' '' @ image_url @
            [CHR 0xC2, CHR 0xA0, CHR 0xC3, CHR 0xA9] @ '')''"

definition pdf_fs :: filesystem where
  "pdf_fs = fresh_fs @ [(''/site/assets/app.js'', File pdf_js)]"

definition pdf_net :: net where
  "pdf_net =
     \<lparr>root_document = None,
      axios_get = (\<lambda>u. if u = pdf_url then Some ''PDF'' else if u = image_url then Some ''PNG'' else None)\<rparr>"

definition render_url :: string where
  "render_url = remote_prefix @ ''render?url='' @ image_url"

definition render_js :: string where
  "render_js = image_url @ '' '' @ render_url @ '' '' @ render_url"

definition render_fs :: filesystem where
  "render_fs = fresh_fs @ [(''/site/assets/app.js'', File render_js)]"

text \<open>A script that names twice a URL whose file name has 256 letters.\<close>

definition long_name :: string where
  "long_name = replicate 256 CHR ''a''"

definition long_url :: string where
  "long_url = remote_prefix @ ''object/'' @ long_name"

definition long_js :: string where
  "long_js = long_url @ '' '' @ long_url"

definition long_fs :: filesystem where
  "long_fs = fresh_fs @ [(''/site/assets/app.js'', File long_js)]"

definition long_net :: net where
  "long_net = \<lparr>root_document = None, axios_get = (\<lambda>u. if u = long_url then Some ''DATA'' else None)\<rparr>"

section \<open>Traces of writes\<close>

text \<open>
  The successful writes of a run, as a list of paths and contents applied in order; two
  file systems that refuse the same writes with the same errors; a list of writes that a
  file system accepts. These are used to compare two runs: \<open>same_run ra rb A B\<close> says that
  the outcomes \<open>ra\<close> and \<open>rb\<close>, reached from the file systems \<open>A\<close> and \<open>B\<close>, ended the same
  way after the same writes.
\<close>

definition apply_writes :: "(string \<times> string) list \<Rightarrow> filesystem \<Rightarrow> filesystem" where
  "apply_writes ws fs = foldl (\<lambda>f (p, d). AList.update p (File d) f) fs ws"

text \<open>
  The writes of \<open>processCss\<close> on the references \<open>urls\<close>: one for every reference whose
  request succeeds and whose file the file system accepts.
\<close>

definition css_stored :: "lib \<Rightarrow> net \<Rightarrow> string \<Rightarrow> filesystem \<Rightarrow> string list \<Rightarrow> (string \<times> string) list" where
  "css_stored l n baseUrl fs urls =
     List.map_filter
       (\<lambda>u. case URL l u (Some baseUrl) of
              None \<Rightarrow> None
            | Some a \<Rightarrow>
                (case axios_get n (href a) of
                   None \<Rightarrow> None
                 | Some d \<Rightarrow>
                     if write_error fs (css_filepath l u) = None
                     then Some (css_filepath l u, d) else None))
       urls"

definition same_refusals :: "filesystem \<Rightarrow> filesystem \<Rightarrow> bool" where
  "same_refusals A B = (\<forall>p. write_error A p = write_error B p)"

definition accepted :: "filesystem \<Rightarrow> (string \<times> string) list \<Rightarrow> bool" where
  "accepted A ws = list_all (\<lambda>(p, d). write_error A p = None) ws"

definition final_world :: "outcome \<Rightarrow> world" where
  "final_world r = (case r of Inl (e, w) \<Rightarrow> w | Inr w \<Rightarrow> w)"

definition thrown :: "outcome \<Rightarrow> error option" where
  "thrown r = (case r of Inl (e, w) \<Rightarrow> Some e | Inr w \<Rightarrow> None)"

definition same_run :: "outcome \<Rightarrow> outcome \<Rightarrow> filesystem \<Rightarrow> filesystem \<Rightarrow> bool" where
  "same_run ra rb A B =
     (\<exists>ws. files (final_world ra) = apply_writes ws A \<and>
           files (final_world rb) = apply_writes ws B \<and>
           thrown rb = thrown ra \<and> accepted A ws)"

section \<open>Basic facts\<close>

lemma set_attr_same: "attr el name = Some s \<Longrightarrow> set_attr el name (Some s) = el"
  by (cases el) (auto simp: attr_def set_attr_def AList.update_triv)

lemma addAsset_data: "prefix ''data:'' s \<Longrightarrow> addAsset l s css q = (None, q)"
  by (simp add: addAsset_def)

lemma addAsset_queue:
  "addAsset l s css q = (r, q') \<Longrightarrow>
     q' = q \<or> (\<exists>a. q' = q @ [a] \<and> originalUrl a = s \<and> \<not> prefix ''data:'' s \<and> s \<noteq> [])"
  by (auto simp: addAsset_def Let_def split: if_splits option.splits)

lemma each_snd_Cons:
  "snd (each sel f (el # els) s) = snd (each sel f els (if sel el then snd (f el s) else s))"
  by (simp split: prod.splits)

lemma each_fst_Cons:
  "fst (each sel f (el # els) s) =
     (if sel el then fst (f el s) # fst (each sel f els (snd (f el s)))
      else el # fst (each sel f els s))"
  by (simp split: prod.splits)

lemma each_invariant:
  assumes "\<And>el s. P s \<Longrightarrow> P (snd (f el s))" and "P s"
  shows "P (snd (each sel f els s))"
  using assms(2)
proof (induction els arbitrary: s)
  case Nil
  then show ?case by simp
next
  case (Cons el els)
  have "P (if sel el then snd (f el s) else s)"
    using Cons.prems assms(1) by simp
  from Cons.IH[OF this] show ?case by (simp only: each_snd_Cons)
qed

lemma collect_snd:
  "snd (collect l doc) =
     snd (each is_meta_image (src_callback l ''content'')
       (fst (each (has_tag ''img'') (src_callback l ''src'')
          (fst (each (has_tag ''script'') (src_callback l ''src'')
             (fst (each (has_tag ''link'') (link_callback l) (filter (\<lambda>el. \<not> is_badge el) doc) []))
             (snd (each (has_tag ''link'') (link_callback l) (filter (\<lambda>el. \<not> is_badge el) doc) []))))
          (snd (each (has_tag ''script'') (src_callback l ''src'')
             (fst (each (has_tag ''link'') (link_callback l) (filter (\<lambda>el. \<not> is_badge el) doc) []))
             (snd (each (has_tag ''link'') (link_callback l) (filter (\<lambda>el. \<not> is_badge el) doc) []))))))
       (snd (each (has_tag ''img'') (src_callback l ''src'')
          (fst (each (has_tag ''script'') (src_callback l ''src'')
             (fst (each (has_tag ''link'') (link_callback l) (filter (\<lambda>el. \<not> is_badge el) doc) []))
             (snd (each (has_tag ''link'') (link_callback l) (filter (\<lambda>el. \<not> is_badge el) doc) []))))
          (snd (each (has_tag ''script'') (src_callback l ''src'')
             (fst (each (has_tag ''link'') (link_callback l) (filter (\<lambda>el. \<not> is_badge el) doc) []))
             (snd (each (has_tag ''link'') (link_callback l) (filter (\<lambda>el. \<not> is_badge el) doc) [])))))))"
  by (simp add: collect_def split: prod.splits)

lemma downloadFile_requests: "requests (snd (downloadFile n u fp w)) = requests w @ [(u, fp)]"
  by (simp add: downloadFile_def Let_def split: option.splits sum.splits)

lemma downloadFile_fail:
  "axios_get n u = None \<Longrightarrow> downloadFile n u fp w = (None, w\<lparr>requests := requests w @ [(u, fp)]\<rparr>)"
  by (simp add: downloadFile_def Let_def)

lemma write_error_written [simp]: "write_error (AList.update p (File d) fs) p = None"
  by (simp add: write_error_def AList.update_conv')

lemma write_error_update:
  assumes "write_error fs q = None"
  shows "write_error (AList.update q (File d) fs) p = write_error fs p"
proof -
  consider (same) "p = q" | (other) "p \<noteq> q" by blast
  then show ?thesis
  proof cases
    case same
    then show ?thesis using assms by simp
  next
    case other
    have q: "map_of fs q \<noteq> Some Dir"
      using assms by (auto simp: write_error_def)
    have "is_directory (AList.update q (File d) fs) x = is_directory fs x" for x
      using q by (auto simp: is_directory_def AList.update_conv')
    then show ?thesis using other by (simp add: write_error_def AList.update_conv')
  qed
qed

text \<open>The checks of a write on explicit paths.\<close>

lemma writeFileSync_checks:
  "writeFileSync [(''/site'', Dir)] ''/site/assets/a.png'' ''x'' = Inl NoParentDirectory \<and>
   writeFileSync [(''/site'', Dir), (''/site/assets'', File ''y'')] ''/site/assets/a.png'' ''x'' =
     Inl NoParentDirectory \<and>
   writeFileSync [(''/site'', Dir), (''/site/assets'', Dir)] ''/site/assets'' ''x'' = Inl EISDIR \<and>
   writeFileSync [(''/site'', Dir)] ''/site/a.png'' ''x'' =
     Inr [(''/site'', Dir), (''/site/a.png'', File ''x'')] \<and>
   writeFileSync [] ''/a.png'' ''x'' = Inr [(''/a.png'', File ''x'')] \<and>
   writeFileSync [] ''a.png'' ''x'' = Inr [(''a.png'', File ''x'')]"
  by code_simp

lemma writeFileSync_accepts:
  "write_error fs p = None \<Longrightarrow> writeFileSync fs p d = Inr (AList.update p (File d) fs)"
  by (simp add: writeFileSync_def)

lemma writeFileSync_refuses:
  "write_error fs p = Some e \<Longrightarrow> writeFileSync fs p d = Inl e"
  by (simp add: writeFileSync_def)

lemma writeFileSync_Inr:
  "writeFileSync fs p d = Inr fs' \<Longrightarrow> fs' = AList.update p (File d) fs \<and> write_error fs p = None"
  by (auto simp: writeFileSync_def split: option.splits)

lemma apply_writes_Nil [simp]: "apply_writes [] fs = fs"
  by (simp add: apply_writes_def)

lemma apply_writes_Cons [simp]:
  "apply_writes ((p, d) # ws) fs = apply_writes ws (AList.update p (File d) fs)"
  by (simp add: apply_writes_def)

lemma apply_writes_append [simp]:
  "apply_writes (ws @ vs) fs = apply_writes vs (apply_writes ws fs)"
  by (simp add: apply_writes_def)

lemma same_refusals_refl [simp]: "same_refusals A A"
  by (simp add: same_refusals_def)

lemma same_refusals_write:
  "write_error A p = None \<Longrightarrow> same_refusals A (AList.update p (File d) A)"
  by (simp add: same_refusals_def write_error_update)

lemma same_refusals_trans: "same_refusals A B \<Longrightarrow> same_refusals B C \<Longrightarrow> same_refusals A C"
  by (simp add: same_refusals_def)

lemma same_refusals_sym: "same_refusals A B \<Longrightarrow> same_refusals B A"
  by (simp add: same_refusals_def)

text \<open>What \<open>downloadFile\<close> leaves on disk.\<close>

lemma downloadFile_files:
  "files (snd (downloadFile n u fp w)) =
     (case axios_get n u of
        None \<Rightarrow> files w
      | Some d \<Rightarrow> if write_error (files w) fp = None then AList.update fp (File d) (files w) else files w)"
  by (auto simp: downloadFile_def Let_def writeFileSync_def split: option.splits)

lemma downloadFile_keeps:
  "existsSync (files w) p \<Longrightarrow> existsSync (files (snd (downloadFile n u fp w))) p"
  by (auto simp: downloadFile_files existsSync_def AList.update_conv' split: option.splits)

lemma downloadFile_refusals:
  "same_refusals (files w) (files (snd (downloadFile n u fp w)))"
  by (auto simp: downloadFile_files same_refusals_write split: option.splits)

lemma downloadFile_stores:
  "axios_get n u = Some d \<Longrightarrow> write_error (files w) fp = None \<Longrightarrow>
   existsSync (files (snd (downloadFile n u fp w))) fp"
  by (simp add: downloadFile_files existsSync_def AList.update_conv')

lemma css_downloads_grow:
  "css_downloads l n b us w = Inr w' \<Longrightarrow> \<exists>ex. requests w' = requests w @ ex"
proof (induction us arbitrary: w)
  case Nil
  then show ?case by simp
next
  case (Cons u us)
  then obtain a where a: "URL l u (Some b) = Some a" by (auto split: option.splits)
  with Cons.prems have "css_downloads l n b us (snd (downloadFile n (href a) (css_filepath l u) w)) = Inr w'"
    by simp
  from Cons.IH[OF this] show ?case by (auto simp: downloadFile_requests)
qed

section \<open>Data URLs\<close>

lemma src_callback_no_data:
  "list_all (\<lambda>a. \<not> prefix ''data:'' (originalUrl a)) q \<Longrightarrow>
   list_all (\<lambda>a. \<not> prefix ''data:'' (originalUrl a)) (snd (src_callback l name el q))"
  by (auto simp: src_callback_def split: option.splits prod.splits dest!: addAsset_queue)

lemma link_callback_no_data:
  "list_all (\<lambda>a. \<not> prefix ''data:'' (originalUrl a)) q \<Longrightarrow>
   list_all (\<lambda>a. \<not> prefix ''data:'' (originalUrl a)) (snd (link_callback l el q))"
  by (auto simp: link_callback_def split: option.splits prod.splits dest!: addAsset_queue)

lemma collect_no_data: "list_all (\<lambda>a. \<not> prefix ''data:'' (originalUrl a)) (snd (collect l doc))"
proof -
  have 0: "list_all (\<lambda>a. \<not> prefix ''data:'' (originalUrl a)) []" by simp
  show ?thesis
    unfolding collect_snd
    by (intro each_invariant[where P = "list_all (\<lambda>a. \<not> prefix ''data:'' (originalUrl a))"]
        src_callback_no_data link_callback_no_data 0)
qed

text \<open>
  C6. A reference that starts with \<^verbatim>\<open>data:\<close> is never queued: \<open>addAsset\<close> returns
  \<^verbatim>\<open>undefined\<close> and leaves the queue as it is, the callbacks of all four passes leave the
  element as it is, and the queue that \<open>collect\<close> builds for any document holds no asset
  whose original reference starts with \<^verbatim>\<open>data:\<close>. The download loop requests queued
  assets and the references of their stylesheets only.
\<close>

theorem data_url_passthrough:
  "(prefix ''data:'' s \<longrightarrow>
      addAsset l s css q = (None, q) \<and>
      (attr el name = Some s \<longrightarrow> src_callback l name el q = (el, q)) \<and>
      (attr el ''href'' = Some s \<longrightarrow> link_callback l el q = (el, q))) \<and>
   list_all (\<lambda>a. \<not> prefix ''data:'' (originalUrl a)) (snd (collect l doc))"
  using collect_no_data[of l doc]
  by (auto simp: addAsset_data src_callback_def link_callback_def set_attr_def)

theorem data_url_passthrough_witness:
  "prefix ''data:'' ''data:image/png;base64,iVBORw0KGgo='' \<and>
   collect node_lib [Element ''img'' [(''src'', ''data:image/png;base64,iVBORw0KGgo=''), (''alt'', ''x'')]]
     = ([Element ''img'' [(''src'', ''data:image/png;base64,iVBORw0KGgo=''), (''alt'', ''x'')]], [])"
  using data_url_passthrough[of "''data:image/png;base64,iVBORw0KGgo=''" node_lib False "[]"
      "Element ''img'' [(''src'', ''data:image/png;base64,iVBORw0KGgo=''), (''alt'', ''x'')]" "''src''" "[]"]
  by (simp add: collect_def is_badge_def has_tag_def is_meta_image_def attr_def)

section \<open>Invalid references\<close>

lemma addAsset_invalid:
  "URL l s (Some BASE_URL) = None \<or> (\<exists>a. URL l s (Some BASE_URL) = Some a \<and> URL l (href a) None = None)
   \<Longrightarrow> addAsset l s css q = (if s = [] \<or> prefix ''data:'' s then None else Some s, q)"
  by (auto simp: addAsset_def Let_def)

lemma src_callback_invalid:
  "URL l s (Some BASE_URL) = None \<or> (\<exists>a. URL l s (Some BASE_URL) = Some a \<and> URL l (href a) None = None)
   \<Longrightarrow> attr el name = Some s \<Longrightarrow> src_callback l name el q = (el, q)"
  by (simp add: src_callback_def addAsset_invalid set_attr_same) (simp add: set_attr_def)

lemma link_callback_invalid:
  "URL l s (Some BASE_URL) = None \<or> (\<exists>a. URL l s (Some BASE_URL) = Some a \<and> URL l (href a) None = None)
   \<Longrightarrow> attr el ''href'' = Some s \<Longrightarrow> link_callback l el q = (el, q)"
  by (simp add: link_callback_def addAsset_invalid set_attr_same) (simp add: set_attr_def)

text \<open>
  C7. When either constructor call of \<open>addAsset\<close> throws on a reference, the queue is
  left as it is, the element comes out of the pass identical to what it was (the
  attribute is set to the text it already had), and the pass goes on with the next
  elements from the same queue.
\<close>

theorem invalid_reference_fail_open:
  assumes "URL l s (Some BASE_URL) = None \<or>
           (\<exists>a. URL l s (Some BASE_URL) = Some a \<and> URL l (href a) None = None)"
  shows "snd (addAsset l s css q) = q \<and>
         (attr el name = Some s \<longrightarrow>
            src_callback l name el q = (el, q) \<and>
            each sel (src_callback l name) (el # els) q =
              (el # fst (each sel (src_callback l name) els q), snd (each sel (src_callback l name) els q))) \<and>
         (attr el ''href'' = Some s \<longrightarrow>
            link_callback l el q = (el, q) \<and>
            each sel (link_callback l) (el # els) q =
              (el # fst (each sel (link_callback l) els q), snd (each sel (link_callback l) els q)))"
  using assms
  by (auto simp: addAsset_invalid src_callback_invalid link_callback_invalid split: prod.splits)

theorem invalid_reference_fail_open_witness:
  "URL node_lib ''https://'' (Some BASE_URL) = None \<and>
   collect node_lib [Element ''img'' [(''src'', ''https://'')], Element ''img'' [(''src'', ''/img/logo.png'')]] =
     ([Element ''img'' [(''src'', ''https://'')], Element ''img'' [(''src'', ''./assets/logo.png'')]],
      [\<lparr>url = ''https://global-indesign.base44.app/img/logo.png'', filepath = ''/site/assets/logo.png'',
        isCss = False, originalUrl = ''/img/logo.png''\<rparr>])"
proof -
  have h: "URL node_lib ''https://'' (Some BASE_URL) = None" by code_simp
  have a: "attr (Element ''img'' [(''src'', ''https://'')]) ''src'' = Some ''https://''"
    by (simp add: attr_def)
  have e: "each (has_tag ''img'') (src_callback node_lib ''src'') [Element ''img'' [(''src'', ''/img/logo.png'')]] [] =
     ([Element ''img'' [(''src'', ''./assets/logo.png'')]],
      [\<lparr>url = ''https://global-indesign.base44.app/img/logo.png'', filepath = ''/site/assets/logo.png'',
        isCss = False, originalUrl = ''/img/logo.png''\<rparr>])"
    by code_simp
  from invalid_reference_fail_open[of node_lib "''https://''" False "[]"
      "Element ''img'' [(''src'', ''https://'')]" "''src''" "has_tag ''img''"
      "[Element ''img'' [(''src'', ''/img/logo.png'')]]"] h a
  have "each (has_tag ''img'') (src_callback node_lib ''src'')
          [Element ''img'' [(''src'', ''https://'')], Element ''img'' [(''src'', ''/img/logo.png'')]] [] =
        (Element ''img'' [(''src'', ''https://'')] #
           fst (each (has_tag ''img'') (src_callback node_lib ''src'') [Element ''img'' [(''src'', ''/img/logo.png'')]] []),
         snd (each (has_tag ''img'') (src_callback node_lib ''src'') [Element ''img'' [(''src'', ''/img/logo.png'')]] []))"
    by blast
  then have "each (has_tag ''img'') (src_callback node_lib ''src'')
          [Element ''img'' [(''src'', ''https://'')], Element ''img'' [(''src'', ''/img/logo.png'')]] [] =
     ([Element ''img'' [(''src'', ''https://'')], Element ''img'' [(''src'', ''./assets/logo.png'')]],
      [\<lparr>url = ''https://global-indesign.base44.app/img/logo.png'', filepath = ''/site/assets/logo.png'',
        isCss = False, originalUrl = ''/img/logo.png''\<rparr>])"
    unfolding e by simp
  then show ?thesis using h
    by (simp add: collect_def has_tag_def is_badge_def is_meta_image_def)
qed

section \<open>Fetch failures\<close>

lemma download_all_fail_step:
  "axios_get n (url a) = None \<Longrightarrow>
   download_all l n (a # as) w =
     download_all l n as (w\<lparr>requests := requests w @ [(url a, filepath a)]\<rparr>)"
  by (simp add: downloadFile_fail)

lemma download_all_all_fail:
  "list_all (\<lambda>a. axios_get n (url a) = None) q \<Longrightarrow>
   download_all l n q w = Inr (w\<lparr>requests := requests w @ map (\<lambda>a. (url a, filepath a)) q\<rparr>)"
proof (induction q arbitrary: w)
  case Nil
  then show ?case by simp
next
  case (Cons a q)
  then show ?case by (simp add: downloadFile_fail)
qed

lemma src_callback_rewrite:
  assumes "map_of as name = Some s" "s \<noteq> []" "\<not> prefix ''data:'' s"
    and "URL l s (Some BASE_URL) = Some a" "URL l (href a) None = Some b"
  shows "src_callback l name (Element t as) q =
     (Element t (AList.update name
        (if localDir l (href a) (path_basename l (pathname b)) = OUT_DIR l
         then ''./'' @ path_basename l (pathname b) else ''./assets/'' @ path_basename l (pathname b)) as),
      q @ [\<lparr>url = href a,
             filepath = path_join l (localDir l (href a) (path_basename l (pathname b))) (path_basename l (pathname b)),
             isCss = False, originalUrl = s\<rparr>])"
  using assms by (simp add: src_callback_def attr_def addAsset_def Let_def set_attr_def)

lemma link_callback_rewrite:
  assumes "map_of as ''href'' = Some s" "s \<noteq> []" "\<not> prefix ''data:'' s"
    and "map_of as ''rel'' = Some r" "r \<in> set validRels"
    and "URL l s (Some BASE_URL) = Some a" "URL l (href a) None = Some b"
  shows "link_callback l (Element t as) q =
     (Element t (AList.update ''href''
        (if localDir l (href a) (path_basename l (pathname b)) = OUT_DIR l
         then ''./'' @ path_basename l (pathname b) else ''./assets/'' @ path_basename l (pathname b)) as),
      q @ [\<lparr>url = href a,
             filepath = path_join l (localDir l (href a) (path_basename l (pathname b))) (path_basename l (pathname b)),
             isCss = (r = ''stylesheet''), originalUrl = s\<rparr>])"
  using assms by (simp add: link_callback_def attr_def addAsset_def Let_def set_attr_def)

lemma main_index:
  assumes "root_document n = Some doc" "main l n sn fs = Inr w"
  shows "map_of (files w) (path_join l (OUT_DIR l) ''index.html'') =
           Some (File (cheerio_html l (cheerio_append l (formFixerScript sn) (fst (collect l doc)))))"
  using assms
  by (auto simp: main_def write_index_def AList.update_conv'
      dest!: writeFileSync_Inr split: prod.splits sum.splits if_splits)

text \<open>
  C2. The callbacks take no network: an element whose reference resolves leaves the pass
  with the attribute set to the local path computed by \<open>addAsset\<close>, and the index.html
  that a completed run writes is the serialisation of the document as the collection
  pass left it, whatever the asset requests returned. When the request of an asset
  fails, \<open>downloadFile\<close> records the request, returns \<^verbatim>\<open>null\<close> and changes no file; the
  download loop then goes on with the remaining assets; and when every request fails the
  loop still reaches its end with one request per queued asset.
\<close>

theorem fail_open_on_fetch_failure:
  "(map_of as name = Some s \<and> s \<noteq> [] \<and> \<not> prefix ''data:'' s \<and>
    URL l s (Some BASE_URL) = Some a \<and> URL l (href a) None = Some b \<longrightarrow>
      fst (src_callback l name (Element t as) q) =
        Element t (AList.update name
          (if localDir l (href a) (path_basename l (pathname b)) = OUT_DIR l
           then ''./'' @ path_basename l (pathname b) else ''./assets/'' @ path_basename l (pathname b)) as)) \<and>
   (map_of as ''href'' = Some s \<and> s \<noteq> [] \<and> \<not> prefix ''data:'' s \<and>
    map_of as ''rel'' = Some r \<and> r \<in> set validRels \<and>
    URL l s (Some BASE_URL) = Some a \<and> URL l (href a) None = Some b \<longrightarrow>
      fst (link_callback l (Element t as) q) =
        Element t (AList.update ''href''
          (if localDir l (href a) (path_basename l (pathname b)) = OUT_DIR l
           then ''./'' @ path_basename l (pathname b) else ''./assets/'' @ path_basename l (pathname b)) as)) \<and>
   (root_document n = Some doc \<and> main l n sn fs = Inr w \<longrightarrow>
      map_of (files w) (path_join l (OUT_DIR l) ''index.html'') =
        Some (File (cheerio_html l (cheerio_append l (formFixerScript sn) (fst (collect l doc)))))) \<and>
   (axios_get n u = None \<longrightarrow>
      downloadFile n u fp w0 = (None, w0\<lparr>requests := requests w0 @ [(u, fp)]\<rparr>)) \<and>
   (axios_get n (url x) = None \<longrightarrow>
      download_all l n (x # xs) w0 =
        download_all l n xs (w0\<lparr>requests := requests w0 @ [(url x, filepath x)]\<rparr>)) \<and>
   (list_all (\<lambda>x. axios_get n (url x) = None) xs \<longrightarrow>
      download_all l n xs w0 = Inr (w0\<lparr>requests := requests w0 @ map (\<lambda>x. (url x, filepath x)) xs\<rparr>))"
  using src_callback_rewrite[of as name s l a b t q] link_callback_rewrite[of as s r l a b t q]
    main_index[of n doc l sn fs w]
    downloadFile_fail[of n u fp w0] download_all_fail_step[of n x l xs w0]
    download_all_all_fail[of n xs l w0]
  by simp

theorem fail_open_on_fetch_failure_witness:
  "axios_get (offline\<lparr>root_document := Some one_image\<rparr>) ''https://global-indesign.base44.app/img/logo.png'' = None \<and>
   main node_lib (offline\<lparr>root_document := Some one_image\<rparr>) demo_snippets fresh_fs =
     Inr \<lparr>files = [(''/site'', Dir), (''/site/assets'', Dir),
                   (''/site/index.html'', File ''<img src=./assets/logo.png><script>form</script>'')],
          requests = [(''https://global-indesign.base44.app/img/logo.png'', ''/site/assets/logo.png'')]\<rparr>"
proof -
  let ?n = "offline\<lparr>root_document := Some one_image\<rparr>"
  let ?x = "\<lparr>url = ''https://global-indesign.base44.app/img/logo.png'', filepath = ''/site/assets/logo.png'',
        isCss = False, originalUrl = ''/img/logo.png''\<rparr>"
  have c: "collect node_lib one_image = ([Element ''img'' [(''src'', ''./assets/logo.png'')]], [?x])"
    by code_simp
  have f: "axios_get ?n (url ?x) = None" by (simp add: offline_def)
  have "download_all node_lib ?n [?x] \<lparr>files = fresh_fs, requests = []\<rparr> =
          download_all node_lib ?n [] \<lparr>files = fresh_fs, requests = [(url ?x, filepath ?x)]\<rparr>"
    using fail_open_on_fetch_failure[where l = node_lib and n = ?n and x = ?x and xs = "[]"
        and ?w0.0 = "\<lparr>files = fresh_fs, requests = []\<rparr>"] f
    by simp
  then have d: "download_all node_lib ?n [?x] \<lparr>files = fresh_fs, requests = []\<rparr> =
      Inr \<lparr>files = fresh_fs, requests = [(url ?x, filepath ?x)]\<rparr>" by simp
  have w: "write_index node_lib (cheerio_append node_lib (formFixerScript demo_snippets) [Element ''img'' [(''src'', ''./assets/logo.png'')]])
       \<lparr>files = fresh_fs, requests = [(''https://global-indesign.base44.app/img/logo.png'', ''/site/assets/logo.png'')]\<rparr> =
     Inr \<lparr>files = [(''/site'', Dir), (''/site/assets'', Dir),
                   (''/site/index.html'', File ''<img src=./assets/logo.png><script>form</script>'')],
          requests = [(''https://global-indesign.base44.app/img/logo.png'', ''/site/assets/logo.png'')]\<rparr>"
    by code_simp
  show ?thesis using f
    by (simp add: main_def c d w del: download_all.simps)
qed


section \<open>One request per reference\<close>

lemma addAsset_push:
  assumes "s \<noteq> []" "\<not> prefix ''data:'' s"
    and "URL l s (Some BASE_URL) = Some a" "URL l (href a) None = Some b"
  shows "addAsset l s css q =
     (Some (if localDir l (href a) (path_basename l (pathname b)) = OUT_DIR l
            then ''./'' @ path_basename l (pathname b) else ''./assets/'' @ path_basename l (pathname b)),
      q @ [\<lparr>url = href a,
             filepath = path_join l (localDir l (href a) (path_basename l (pathname b))) (path_basename l (pathname b)),
             isCss = css, originalUrl = s\<rparr>])"
  using assms by (simp add: addAsset_def Let_def)

lemma download_all_no_css:
  "list_all (\<lambda>x. \<not> isCss x) xs \<Longrightarrow>
   \<exists>w'. download_all l n xs w = Inr w' \<and> requests w' = requests w @ map (\<lambda>x. (url x, filepath x)) xs"
proof (induction xs arbitrary: w)
  case Nil
  then show ?case by simp
next
  case (Cons x xs)
  obtain dat w1 where d: "downloadFile n (url x) (filepath x) w = (dat, w1)"
    by fastforce
  have r: "requests w1 = requests w @ [(url x, filepath x)]"
    using downloadFile_requests[of n "url x" "filepath x" w] d by simp
  from Cons.prems have "list_all (\<lambda>x. \<not> isCss x) xs" and nc: "\<not> isCss x" by simp_all
  from Cons.IH[OF this(1), of w1] obtain w' where
    "download_all l n xs w1 = Inr w'" "requests w' = requests w1 @ map (\<lambda>x. (url x, filepath x)) xs"
    by blast
  then show ?case using d r nc by (auto split: option.splits)
qed

lemma download_all_lower:
  "download_all l n xs w = Inr w' \<Longrightarrow>
   \<exists>ex. map fst (requests w') = map fst (requests w) @ ex \<and> count_list (map url xs) u \<le> count_list ex u"
proof (induction xs arbitrary: w)
  case Nil
  then show ?case by simp
next
  case (Cons x xs)
  obtain dat w1 where d: "downloadFile n (url x) (filepath x) w = (dat, w1)"
    by fastforce
  have r: "requests w1 = requests w @ [(url x, filepath x)]"
    using downloadFile_requests[of n "url x" "filepath x" w] d by simp
  consider (plain) "download_all l n xs w1 = Inr w'"
    | (css) c w2 where "dat = Some c" "isCss x" "processCss l n c (url x) w1 = Inr w2" "download_all l n xs w2 = Inr w'"
    using Cons.prems d by (auto split: option.splits if_splits sum.splits)
  then show ?case
  proof cases
    case plain
    from Cons.IH[OF this] obtain ex where
      "map fst (requests w') = map fst (requests w1) @ ex" "count_list (map url xs) u \<le> count_list ex u"
      by blast
    then have "map fst (requests w') = map fst (requests w) @ (url x # ex) \<and>
               count_list (map url (x # xs)) u \<le> count_list (url x # ex) u"
      using r by simp
    then show ?thesis by blast
  next
    case css
    from css_downloads_grow[of l n "url x" _ w1 w2] css(3) obtain e1 where
      e1: "requests w2 = requests w1 @ e1" by (auto simp: processCss_def)
    from Cons.IH[OF css(4)] obtain ex where
      "map fst (requests w') = map fst (requests w2) @ ex" "count_list (map url xs) u \<le> count_list ex u"
      by blast
    then have "map fst (requests w') = map fst (requests w) @ (url x # map fst e1 @ ex) \<and>
               count_list (map url (x # xs)) u \<le> count_list (url x # map fst e1 @ ex) u"
      using r e1 by simp
    then show ?thesis by blast
  qed
qed

text \<open>
  C1, as amended. Nothing deduplicates the queue: every call of \<open>addAsset\<close> on a
  reference that resolves appends one asset, and the download loop calls \<open>downloadFile\<close>
  once for every queued asset, in order. So a URL that N references resolve to is
  requested N times by the loop when no stylesheet is queued, and at least N times in
  any run that completes.
\<close>

theorem fetch_once_per_reference:
  "(s \<noteq> [] \<and> \<not> prefix ''data:'' s \<and> URL l s (Some BASE_URL) = Some a \<and> URL l (href a) None = Some b \<longrightarrow>
      map url (snd (addAsset l s css q)) = map url q @ [href a]) \<and>
   (list_all (\<lambda>x. \<not> isCss x) xs \<longrightarrow>
      (\<exists>w'. download_all l n xs w = Inr w' \<and>
            requests w' = requests w @ map (\<lambda>x. (url x, filepath x)) xs)) \<and>
   (download_all l n xs w = Inr w1 \<longrightarrow>
      count_list (map fst (requests w)) u + count_list (map url xs) u
        \<le> count_list (map fst (requests w1)) u)"
proof -
  have "count_list (map fst (requests w)) u + count_list (map url xs) u
        \<le> count_list (map fst (requests w1)) u" if "download_all l n xs w = Inr w1"
  proof -
    from download_all_lower[OF that, of u] obtain ex where
      "map fst (requests w1) = map fst (requests w) @ ex" "count_list (map url xs) u \<le> count_list ex u"
      by blast
    then show ?thesis by simp
  qed
  then show ?thesis
    using addAsset_push[of s l a b css q] download_all_no_css[of xs l n w] by simp
qed

text \<open>
  C1 as stated fails: a document with the same image in two \<^verbatim>\<open>img\<close> tags makes the run
  request that URL twice.
\<close>

theorem at_most_once_fetch_counterexample:
  "main node_lib (logo_net twice_doc) demo_snippets fresh_fs =
     Inr \<lparr>files = [(''/site'', Dir), (''/site/assets'', Dir), (''/site/assets/logo.png'', File ''PNG''),
                   (''/site/index.html'',
                    File ''<img src=./assets/logo.png><img src=./assets/logo.png><script>form</script>'')],
          requests = [(''https://global-indesign.base44.app/img/logo.png'', ''/site/assets/logo.png''),
                      (''https://global-indesign.base44.app/img/logo.png'', ''/site/assets/logo.png'')]\<rparr>"
  by code_simp

theorem fetch_once_per_reference_witness:
  "list_all (\<lambda>x. \<not> isCss x) (snd (collect node_lib twice_doc)) \<and>
   (\<exists>w'. download_all node_lib (logo_net twice_doc) (snd (collect node_lib twice_doc))
           \<lparr>files = fresh_fs, requests = []\<rparr> = Inr w' \<and>
         requests w' = [(''https://global-indesign.base44.app/img/logo.png'', ''/site/assets/logo.png''),
                        (''https://global-indesign.base44.app/img/logo.png'', ''/site/assets/logo.png'')])"
proof -
  have c: "snd (collect node_lib twice_doc) =
     [\<lparr>url = ''https://global-indesign.base44.app/img/logo.png'', filepath = ''/site/assets/logo.png'',
        isCss = False, originalUrl = ''/img/logo.png''\<rparr>,
      \<lparr>url = ''https://global-indesign.base44.app/img/logo.png'', filepath = ''/site/assets/logo.png'',
        isCss = False, originalUrl = ''/img/logo.png''\<rparr>]"
    by code_simp
  have h: "list_all (\<lambda>x. \<not> isCss x) (snd (collect node_lib twice_doc))"
    unfolding c by simp
  from fetch_once_per_reference[of _ node_lib _ _ _ _ "snd (collect node_lib twice_doc)"
      "logo_net twice_doc" "\<lparr>files = fresh_fs, requests = []\<rparr>"] h
  have "\<exists>w'. download_all node_lib (logo_net twice_doc) (snd (collect node_lib twice_doc))
           \<lparr>files = fresh_fs, requests = []\<rparr> = Inr w' \<and>
         requests w' = requests \<lparr>files = fresh_fs, requests = []\<rparr> @
           map (\<lambda>x. (url x, filepath x)) (snd (collect node_lib twice_doc))"
    by blast
  then show ?thesis using h unfolding c by simp
qed


section \<open>Destinations\<close>

text \<open>
  C3 as stated fails: manifest.json at the root of the site, named by a \<^verbatim>\<open>link\<close> tag and
  by a stylesheet, is stored at the root by \<open>addAsset\<close> and in the assets directory by
  \<open>processCss\<close>.
\<close>


theorem local_path_determinism_counterexample:
  "main node_lib manifest_net demo_snippets fresh_fs =
     Inr \<lparr>files = [(''/site'', Dir), (''/site/assets'', Dir),
                   (''/site/manifest.json'', File ''{}''),
                   (''/site/assets/style.css'', File ''body { background: url(manifest.json) }''),
                   (''/site/assets/manifest.json'', File ''{}''),
                   (''/site/index.html'',
                    File ''<link rel=manifest href=./manifest.json><link rel=stylesheet href=./assets/style.css><script>form</script>'')],
          requests = [(''https://global-indesign.base44.app/manifest.json'', ''/site/manifest.json''),
                      (''https://global-indesign.base44.app/style.css'', ''/site/assets/style.css''),
                      (''https://global-indesign.base44.app/manifest.json'', ''/site/assets/manifest.json'')]\<rparr>"
  by code_simp

text \<open>
  C3, as amended. \<open>processCss\<close> always stores in the assets directory, under the
  basename of the reference cut at the first \<^verbatim>\<open>#\<close> and \<^verbatim>\<open>?\<close>. A stylesheet reference
  and an HTML reference to the absolute URL it resolves to get the same destination
  when that basename is the basename of the URL's path and \<open>addAsset\<close> does not apply its
  manifest.json exception (the URL contains \<^verbatim>\<open>/assets/\<close> or the basename is not
  manifest.json).
\<close>

theorem local_path_agreement:
  assumes "URL l rel (Some base) = Some a"
    and "URL l (href a) (Some BASE_URL) = Some a'" and "href a' = href a"
    and "URL l (href a) None = Some b"
    and "href a \<noteq> []" and "\<not> prefix ''data:'' (href a)"
    and "path_basename l (cleanRelUrl rel) = path_basename l (pathname b)"
    and "sublist ''/assets/'' (href a) \<or> path_basename l (pathname b) \<noteq> ''manifest.json''"
  shows "map (\<lambda>x. (url x, filepath x)) (snd (addAsset l (href a) css [])) =
           [(href a, path_join l (ASSETS_DIR l) (path_basename l (cleanRelUrl rel)))] \<and>
         (\<exists>w'. css_downloads l n base [rel] w = Inr w' \<and>
            requests w' = requests w @
              [(href a, path_join l (ASSETS_DIR l) (path_basename l (cleanRelUrl rel)))])"
proof -
  have "localDir l (href a) (path_basename l (pathname b)) = ASSETS_DIR l"
    using assms(8) by (auto simp: localDir_def)
  then show ?thesis
    using addAsset_push[OF assms(5,6,2), of b css "[]"] assms
    by (simp add: downloadFile_requests css_filepath_def)
qed

theorem local_path_agreement_witness:
  "URL node_lib ''../fonts/a.woff2?v=2'' (Some ''https://global-indesign.base44.app/assets/style.css'') =
     Some \<lparr>href = ''https://global-indesign.base44.app/fonts/a.woff2?v=2'', pathname = ''/fonts/a.woff2''\<rparr> \<and>
   map (\<lambda>x. (url x, filepath x))
     (snd (addAsset node_lib ''https://global-indesign.base44.app/fonts/a.woff2?v=2'' False [])) =
     [(''https://global-indesign.base44.app/fonts/a.woff2?v=2'', ''/site/assets/a.woff2'')] \<and>
   (\<exists>w'. css_downloads node_lib offline ''https://global-indesign.base44.app/assets/style.css''
            [''../fonts/a.woff2?v=2''] \<lparr>files = fresh_fs, requests = []\<rparr> = Inr w' \<and>
         requests w' = [(''https://global-indesign.base44.app/fonts/a.woff2?v=2'', ''/site/assets/a.woff2'')])"
proof -
  let ?abs = "''https://global-indesign.base44.app/fonts/a.woff2?v=2''"
  let ?u = "\<lparr>href = ?abs, pathname = ''/fonts/a.woff2''\<rparr>"
  have 1: "URL node_lib ''../fonts/a.woff2?v=2'' (Some ''https://global-indesign.base44.app/assets/style.css'') = Some ?u"
    by code_simp
  have 2: "URL node_lib (href ?u) (Some BASE_URL) = Some ?u" by code_simp
  have 3: "URL node_lib (href ?u) None = Some ?u" by code_simp
  have 4: "href ?u \<noteq> []" "\<not> prefix ''data:'' (href ?u)" by simp_all
  have 5: "path_basename node_lib (cleanRelUrl ''../fonts/a.woff2?v=2'') = path_basename node_lib (pathname ?u)"
    by code_simp
  have 6: "sublist ''/assets/'' (href ?u) \<or> path_basename node_lib (pathname ?u) \<noteq> ''manifest.json''"
    by code_simp
  have 7: "path_join node_lib (ASSETS_DIR node_lib) (path_basename node_lib (cleanRelUrl ''../fonts/a.woff2?v=2''))
     = ''/site/assets/a.woff2''" by code_simp
  from local_path_agreement[OF 1 2 _ 3 4 5 6, of False offline "\<lparr>files = fresh_fs, requests = []\<rparr>"]
  show ?thesis using 1 unfolding 7 by simp
qed


lemma download_two:
  assumes "filepath x = filepath y" "axios_get n (url x) = Some d1" "axios_get n (url y) = Some d2"
    "\<not> isCss x" "\<not> isCss y" "write_error (files w) (filepath x) = None"
  shows "\<exists>w'. download_all l n [x, y] w = Inr w' \<and> map_of (files w') (filepath x) = Some (File d2)"
  using assms
  by (simp add: downloadFile_def Let_def writeFileSync_accepts AList.update_conv')

lemma addAsset_filepath:
  assumes "s \<noteq> []" "\<not> prefix ''data:'' s"
    and "URL l s (Some BASE_URL) = Some a" "URL l (href a) None = Some b"
  shows "map filepath (snd (addAsset l s css [])) =
           [path_join l
              (if \<not> sublist ''/assets/'' (href a) \<and> path_basename l (pathname b) = ''manifest.json''
               then OUT_DIR l else ASSETS_DIR l)
              (path_basename l (pathname b))]"
  using addAsset_push[OF assms, of css "[]"] by (simp add: localDir_def)

text \<open>
  C10 as stated fails for assets found in stylesheets. The two URLs below are distinct,
  their paths have the same basename manifest.json and neither contains \<^verbatim>\<open>/assets/\<close>;
  the one named by the \<^verbatim>\<open>link\<close> tag is stored at the root, the one named by the
  stylesheet in the assets directory, and both files remain.
\<close>

theorem basename_collision_counterexample:
  "main node_lib css_manifest_net demo_snippets fresh_fs =
     Inr \<lparr>files = [(''/site'', Dir), (''/site/assets'', Dir),
                   (''/site/manifest.json'', File ''root''),
                   (''/site/assets/style.css'', File ''body { background: url(manifest.json) }''),
                   (''/site/assets/manifest.json'', File ''css''),
                   (''/site/index.html'',
                    File ''<link rel=manifest href=./manifest.json><link rel=stylesheet href=./assets/style.css><script>form</script>'')],
          requests = [(''https://global-indesign.base44.app/manifest.json'', ''/site/manifest.json''),
                      (''https://global-indesign.base44.app/css/style.css'', ''/site/assets/style.css''),
                      (''https://global-indesign.base44.app/css/manifest.json'', ''/site/assets/manifest.json'')]\<rparr>"
  by code_simp

text \<open>
  C10, as amended. The destination that \<open>addAsset\<close> gives a reference is \<^verbatim>\<open>path.join\<close>
  of a directory and the basename of the URL's path, where the directory is the assets
  directory unless the URL does not contain \<^verbatim>\<open>/assets/\<close> and the basename is
  manifest.json. So two HTML references whose URLs have the same basename get the same
  destination, whatever their hosts and directories, as long as they fall on the same
  side of the manifest.json case. A stylesheet reference is stored in the assets
  directory under the basename of the reference, and a remote-storage URL of a script
  under the basename of its path. When two queued assets have the same destination and
  both requests succeed and the file system accepts the write, the file holds the bytes
  of the later one after the loop.
\<close>

theorem basename_collision:
  "(s \<noteq> [] \<and> \<not> prefix ''data:'' s \<and> URL l s (Some BASE_URL) = Some a \<and> URL l (href a) None = Some b \<longrightarrow>
      map filepath (snd (addAsset l s css [])) =
        [path_join l
           (if \<not> sublist ''/assets/'' (href a) \<and> path_basename l (pathname b) = ''manifest.json''
            then OUT_DIR l else ASSETS_DIR l)
           (path_basename l (pathname b))]) \<and>
   (s \<noteq> [] \<and> \<not> prefix ''data:'' s \<and> URL l s (Some BASE_URL) = Some a \<and> URL l (href a) None = Some b \<and>
    s' \<noteq> [] \<and> \<not> prefix ''data:'' s' \<and> URL l s' (Some BASE_URL) = Some a' \<and> URL l (href a') None = Some b' \<and>
    path_basename l (pathname b') = path_basename l (pathname b) \<and>
    (path_basename l (pathname b) \<noteq> ''manifest.json'' \<or>
     sublist ''/assets/'' (href a') = sublist ''/assets/'' (href a)) \<longrightarrow>
      map filepath (snd (addAsset l s' css' [])) = map filepath (snd (addAsset l s css []))) \<and>
   (URL l rel (Some base) = Some a \<longrightarrow>
      requests (snd (downloadFile n (href a) (css_filepath l rel) w)) =
        requests w @ [(href a, path_join l (ASSETS_DIR l) (path_basename l (cleanRelUrl rel)))] \<and>
      css_downloads l n base [rel] w = Inr (snd (downloadFile n (href a) (css_filepath l rel) w))) \<and>
   (URL l (url_text u) None = Some a \<and> URL l (href a) None = Some b \<and>
    \<not> existsSync (files w)
        (path_join l (ASSETS_DIR l) (path_basename l (takeWhile (\<lambda>c. c \<noteq> CHR ''?'') (pathname b)))) \<longrightarrow>
      requests (snd (snd (js_matches_loop l n [u] (c, m, w)))) =
        requests w @
          [(href a, path_join l (ASSETS_DIR l)
                      (path_basename l (takeWhile (\<lambda>c. c \<noteq> CHR ''?'') (pathname b))))]) \<and>
   (filepath x = filepath y \<and> axios_get n (url x) = Some d1 \<and> axios_get n (url y) = Some d2 \<and>
    \<not> isCss x \<and> \<not> isCss y \<and> write_error (files w) (filepath x) = None \<longrightarrow>
      (\<exists>w'. download_all l n [x, y] w = Inr w' \<and> map_of (files w') (filepath x) = Some (File d2)))"
proof (intro conjI impI)
  assume "s \<noteq> [] \<and> \<not> prefix ''data:'' s \<and> URL l s (Some BASE_URL) = Some a \<and> URL l (href a) None = Some b"
  then show "map filepath (snd (addAsset l s css [])) =
        [path_join l
           (if \<not> sublist ''/assets/'' (href a) \<and> path_basename l (pathname b) = ''manifest.json''
            then OUT_DIR l else ASSETS_DIR l)
           (path_basename l (pathname b))]"
    by (simp add: addAsset_filepath)
next
  assume h: "s \<noteq> [] \<and> \<not> prefix ''data:'' s \<and> URL l s (Some BASE_URL) = Some a \<and> URL l (href a) None = Some b \<and>
    s' \<noteq> [] \<and> \<not> prefix ''data:'' s' \<and> URL l s' (Some BASE_URL) = Some a' \<and> URL l (href a') None = Some b' \<and>
    path_basename l (pathname b') = path_basename l (pathname b) \<and>
    (path_basename l (pathname b) \<noteq> ''manifest.json'' \<or>
     sublist ''/assets/'' (href a') = sublist ''/assets/'' (href a))"
  then have 1: "map filepath (snd (addAsset l s css [])) =
        [path_join l
           (if \<not> sublist ''/assets/'' (href a) \<and> path_basename l (pathname b) = ''manifest.json''
            then OUT_DIR l else ASSETS_DIR l)
           (path_basename l (pathname b))]"
    by (simp add: addAsset_filepath)
  from h have 2: "map filepath (snd (addAsset l s' css' [])) =
        [path_join l
           (if \<not> sublist ''/assets/'' (href a') \<and> path_basename l (pathname b') = ''manifest.json''
            then OUT_DIR l else ASSETS_DIR l)
           (path_basename l (pathname b'))]"
    by (simp add: addAsset_filepath)
  from h show "map filepath (snd (addAsset l s' css' [])) = map filepath (snd (addAsset l s css []))"
    unfolding 1 2 by auto
next
  assume "URL l rel (Some base) = Some a"
  then show "css_downloads l n base [rel] w = Inr (snd (downloadFile n (href a) (css_filepath l rel) w))"
    by simp
next
  show "requests (snd (downloadFile n (href a) (css_filepath l rel) w)) =
        requests w @ [(href a, path_join l (ASSETS_DIR l) (path_basename l (cleanRelUrl rel)))]"
    by (simp add: downloadFile_requests css_filepath_def)
next
  assume "URL l (url_text u) None = Some a \<and> URL l (href a) None = Some b \<and>
    \<not> existsSync (files w)
        (path_join l (ASSETS_DIR l) (path_basename l (takeWhile (\<lambda>c. c \<noteq> CHR ''?'') (pathname b))))"
  then show "requests (snd (snd (js_matches_loop l n [u] (c, m, w)))) =
        requests w @
          [(href a, path_join l (ASSETS_DIR l)
                      (path_basename l (takeWhile (\<lambda>c. c \<noteq> CHR ''?'') (pathname b))))]"
    by (simp add: Let_def downloadFile_requests)
next
  assume "filepath x = filepath y \<and> axios_get n (url x) = Some d1 \<and> axios_get n (url y) = Some d2 \<and>
    \<not> isCss x \<and> \<not> isCss y \<and> write_error (files w) (filepath x) = None"
  then show "\<exists>w'. download_all l n [x, y] w = Inr w' \<and> map_of (files w') (filepath x) = Some (File d2)"
    using download_two[of x y n d1 d2 w l] by blast
qed

theorem basename_collision_witness:
  "snd (collect node_lib two_logos) =
     [\<lparr>url = ''https://global-indesign.base44.app/img/logo.png'', filepath = ''/site/assets/logo.png'',
        isCss = False, originalUrl = ''/img/logo.png''\<rparr>,
      \<lparr>url = ''https://cdn.example.com/brand/logo.png?v=3'', filepath = ''/site/assets/logo.png'',
        isCss = False, originalUrl = ''https://cdn.example.com/brand/logo.png?v=3''\<rparr>] \<and>
   axios_get two_logos_net ''https://global-indesign.base44.app/img/logo.png'' = Some ''first'' \<and>
   axios_get two_logos_net ''https://cdn.example.com/brand/logo.png?v=3'' = Some ''second'' \<and>
   write_error fresh_fs ''/site/assets/logo.png'' = None \<and>
   (\<exists>w'. download_all node_lib two_logos_net (snd (collect node_lib two_logos))
            \<lparr>files = fresh_fs, requests = []\<rparr> = Inr w' \<and>
         map_of (files w') ''/site/assets/logo.png'' = Some (File ''second''))"
proof -
  let ?x = "\<lparr>url = ''https://global-indesign.base44.app/img/logo.png'', filepath = ''/site/assets/logo.png'',
        isCss = False, originalUrl = ''/img/logo.png''\<rparr>"
  let ?y = "\<lparr>url = ''https://cdn.example.com/brand/logo.png?v=3'', filepath = ''/site/assets/logo.png'',
        isCss = False, originalUrl = ''https://cdn.example.com/brand/logo.png?v=3''\<rparr>"
  let ?w = "\<lparr>files = fresh_fs, requests = []\<rparr>"
  have c: "snd (collect node_lib two_logos) = [?x, ?y]" by code_simp
  have 1: "axios_get two_logos_net ''https://global-indesign.base44.app/img/logo.png'' = Some ''first''"
    by (simp add: two_logos_net_def)
  have 2: "axios_get two_logos_net ''https://cdn.example.com/brand/logo.png?v=3'' = Some ''second''"
    by (simp add: two_logos_net_def)
  have 3: "write_error fresh_fs ''/site/assets/logo.png'' = None" by code_simp
  have "filepath ?x = filepath ?y \<and> axios_get two_logos_net (url ?x) = Some ''first'' \<and>
        axios_get two_logos_net (url ?y) = Some ''second'' \<and>
        \<not> isCss ?x \<and> \<not> isCss ?y \<and> write_error (files ?w) (filepath ?x) = None \<longrightarrow>
      (\<exists>w'. download_all node_lib two_logos_net [?x, ?y] ?w = Inr w' \<and>
            map_of (files w') (filepath ?x) = Some (File ''second''))"
    using basename_collision[where l = node_lib and x = ?x and y = ?y and n = two_logos_net
        and ?d1.0 = "''first''" and ?d2.0 = "''second''" and w = ?w]
    by blast
  with 1 2 3 have "\<exists>w'. download_all node_lib two_logos_net [?x, ?y] ?w = Inr w' \<and>
         map_of (files w') ''/site/assets/logo.png'' = Some (File ''second'')"
    by simp
  then show ?thesis using 1 2 3 unfolding c by simp
qed

section \<open>Two runs\<close>

lemma map_of_apply_writes:
  "map_of (apply_writes ws fs) = map_of fs ++ map_of (rev (map (\<lambda>(p, d). (p, File d)) ws))"
proof (induction ws arbitrary: fs)
  case Nil
  then show ?case by simp
next
  case (Cons w ws)
  obtain p d where w: "w = (p, d)" by fastforce
  show ?case
    by (simp add: w Cons.IH AList.update_conv' map_add_upd_left fun_eq_iff map_add_def
        split: option.splits)
qed

lemma apply_writes_twice:
  "map_of (apply_writes ws (apply_writes ws fs)) = map_of (apply_writes ws fs)"
  by (simp add: map_of_apply_writes fun_eq_iff map_add_def split: option.splits)

lemma keys_apply_writes:
  "fst ` set (apply_writes ws fs) = fst ` set ws \<union> fst ` set fs"
proof (induction ws arbitrary: fs)
  case Nil
  then show ?case by simp
next
  case (Cons w ws)
  obtain p d where w: "w = (p, d)" by fastforce
  show ?case by (auto simp: w Cons.IH AList.dom_update)
qed

lemma order_apply_writes:
  "fst ` set ws \<subseteq> fst ` set fs \<Longrightarrow> map fst (apply_writes ws fs) = map fst fs"
proof (induction ws arbitrary: fs)
  case Nil
  then show ?case by simp
next
  case (Cons w ws)
  obtain p d where w: "w = (p, d)" by fastforce
  have k: "map fst (AList.update p (File d) fs) = map fst fs"
    using Cons.prems by (auto simp: w AList.update_keys)
  have "fst ` set ws \<subseteq> fst ` set (AList.update p (File d) fs)"
    using Cons.prems by (auto simp: AList.dom_update)
  from Cons.IH[OF this] show ?case by (simp add: w k)
qed

lemma same_refusals_update:
  assumes "same_refusals A B" "write_error A p = None"
  shows "same_refusals (AList.update p (File d) A) (AList.update p (File d) B)"
proof -
  have "write_error B p = None" using assms by (simp add: same_refusals_def)
  then show ?thesis
    using assms by (simp add: same_refusals_def write_error_update)
qed

lemma accepted_cong: "same_refusals A B \<Longrightarrow> accepted A ws = accepted B ws"
  by (simp add: same_refusals_def accepted_def)

lemma same_refusals_accepted:
  "accepted A ws \<Longrightarrow> same_refusals A (apply_writes ws A)"
proof (induction ws arbitrary: A)
  case Nil
  then show ?case by simp
next
  case (Cons w ws)
  obtain p d where w: "w = (p, d)" by fastforce
  from Cons.prems have 1: "write_error A p = None" and 2: "accepted A ws"
    by (simp_all add: w accepted_def)
  have s: "same_refusals A (AList.update p (File d) A)" by (rule same_refusals_write[OF 1])
  then have "accepted (AList.update p (File d) A) ws" using 2 accepted_cong by blast
  from Cons.IH[OF this] show ?case using s by (auto simp: w intro: same_refusals_trans)
qed

lemma same_refusals_apply:
  assumes "same_refusals A B" "accepted A ws"
  shows "same_refusals (apply_writes ws A) (apply_writes ws B)"
proof -
  have "accepted B ws" using assms accepted_cong by blast
  then have "same_refusals B (apply_writes ws B)" by (rule same_refusals_accepted)
  moreover have "same_refusals (apply_writes ws A) A"
    using same_refusals_accepted[OF assms(2)] by (rule same_refusals_sym)
  ultimately show ?thesis using assms(1) by (blast intro: same_refusals_trans)
qed

lemma accepted_append:
  "accepted A ws \<Longrightarrow> accepted (apply_writes ws A) vs \<Longrightarrow> accepted A (ws @ vs)"
  using accepted_cong[OF same_refusals_accepted, of A ws vs] by (simp add: accepted_def)

lemma downloadFile_sim:
  assumes "same_refusals (files wa) (files wb)"
  shows "\<exists>ws. fst (downloadFile n u fp wb) = fst (downloadFile n u fp wa) \<and>
            files (snd (downloadFile n u fp wa)) = apply_writes ws (files wa) \<and>
            files (snd (downloadFile n u fp wb)) = apply_writes ws (files wb) \<and>
            accepted (files wa) ws"
proof -
  consider (failed) "axios_get n u = None"
    | (refused) d e where "axios_get n u = Some d" "write_error (files wa) fp = Some e"
    | (stored) d where "axios_get n u = Some d" "write_error (files wa) fp = None"
    by fastforce
  then show ?thesis
  proof cases
    case failed
    then have "fst (downloadFile n u fp wb) = fst (downloadFile n u fp wa) \<and>
            files (snd (downloadFile n u fp wa)) = apply_writes [] (files wa) \<and>
            files (snd (downloadFile n u fp wb)) = apply_writes [] (files wb) \<and>
            accepted (files wa) []"
      by (simp add: downloadFile_def Let_def accepted_def)
    then show ?thesis by blast
  next
    case refused
    then have "write_error (files wb) fp = Some e" using assms by (simp add: same_refusals_def)
    with refused have "fst (downloadFile n u fp wb) = fst (downloadFile n u fp wa) \<and>
            files (snd (downloadFile n u fp wa)) = apply_writes [] (files wa) \<and>
            files (snd (downloadFile n u fp wb)) = apply_writes [] (files wb) \<and>
            accepted (files wa) []"
      by (simp add: downloadFile_def Let_def accepted_def writeFileSync_refuses)
    then show ?thesis by blast
  next
    case stored
    then have "write_error (files wb) fp = None" using assms by (simp add: same_refusals_def)
    with stored have "fst (downloadFile n u fp wb) = fst (downloadFile n u fp wa) \<and>
            files (snd (downloadFile n u fp wa)) = apply_writes [(fp, d)] (files wa) \<and>
            files (snd (downloadFile n u fp wb)) = apply_writes [(fp, d)] (files wb) \<and>
            accepted (files wa) [(fp, d)]"
      by (simp add: downloadFile_def Let_def accepted_def writeFileSync_accepts)
    then show ?thesis by blast
  qed
qed

lemma same_run_stop:
  "thrown rb = thrown ra \<Longrightarrow> files (final_world ra) = A \<Longrightarrow> files (final_world rb) = B
   \<Longrightarrow> same_run ra rb A B"
  unfolding same_run_def
  by (rule exI[of _ "[]"]) (simp add: accepted_def)

lemma same_run_after:
  assumes "files wa = apply_writes ws A" "files wb = apply_writes ws B" "accepted A ws"
    and "same_run ra rb (files wa) (files wb)"
  shows "same_run ra rb A B"
proof -
  from assms(4) obtain vs where
    v: "files (final_world ra) = apply_writes vs (files wa)"
       "files (final_world rb) = apply_writes vs (files wb)"
       "thrown rb = thrown ra" "accepted (files wa) vs"
    unfolding same_run_def by blast
  have "files (final_world ra) = apply_writes (ws @ vs) A \<and>
        files (final_world rb) = apply_writes (ws @ vs) B \<and>
        thrown rb = thrown ra \<and> accepted A (ws @ vs)"
    using v assms(1-3) accepted_append[of A ws vs] by simp
  then show ?thesis unfolding same_run_def by blast
qed

lemma same_run_dirs:
  "same_refusals A B \<Longrightarrow> same_run ra rb A B \<Longrightarrow>
   same_refusals (files (final_world ra)) (files (final_world rb))"
  unfolding same_run_def using same_refusals_apply by fastforce

lemma same_run_Inr:
  "same_run ra rb A B \<Longrightarrow> ra = Inr wa \<Longrightarrow> \<exists>wb. rb = Inr wb"
  unfolding same_run_def thrown_def by (cases rb) (auto split: prod.splits)

lemma same_run_Inl:
  "same_run ra rb A B \<Longrightarrow> ra = Inl (e, wa) \<Longrightarrow> \<exists>wb. rb = Inl (e, wb)"
  unfolding same_run_def thrown_def by (cases rb) (auto split: prod.splits)

lemma final_world_simps [simp]:
  "final_world (Inl (e, w)) = w" "final_world (Inr w) = w"
  by (simp_all add: final_world_def)

lemma thrown_simps [simp]:
  "thrown (Inl (e, w)) = Some e" "thrown (Inr w) = None"
  by (simp_all add: thrown_def)

lemma css_downloads_sim:
  assumes "same_refusals (files wa) (files wb)"
  shows "same_run (css_downloads l n b us wa) (css_downloads l n b us wb) (files wa) (files wb)"
  using assms
proof (induction us arbitrary: wa wb)
  case Nil
  show ?case by (simp add: same_run_stop)
next
  case (Cons u us)
  consider (throws) "URL l u (Some b) = None" | (parsed) a where "URL l u (Some b) = Some a"
    by fastforce
  then show ?case
  proof cases
    case throws
    then show ?thesis by (simp add: same_run_stop)
  next
    case parsed
    let ?da = "downloadFile n (href a) (css_filepath l u) wa"
    let ?db = "downloadFile n (href a) (css_filepath l u) wb"
    from downloadFile_sim[OF Cons.prems, of n "href a" "css_filepath l u"] obtain ws1 where
      1: "files (snd ?da) = apply_writes ws1 (files wa)" "files (snd ?db) = apply_writes ws1 (files wb)"
         "accepted (files wa) ws1"
      by blast
    have s: "same_refusals (files (snd ?da)) (files (snd ?db))"
      unfolding 1(1,2) by (rule same_refusals_apply[OF Cons.prems 1(3)])
    from same_run_after[OF 1 Cons.IH[OF s]] show ?thesis using parsed by simp
  qed
qed

lemma download_all_Cons:
  "download_all l n (x # xs) w =
     (case fst (downloadFile n (url x) (filepath x) w) of
        None \<Rightarrow> download_all l n xs (snd (downloadFile n (url x) (filepath x) w))
      | Some d \<Rightarrow>
          if isCss x then
            (case processCss l n d (url x) (snd (downloadFile n (url x) (filepath x) w)) of
               Inl e \<Rightarrow> Inl e
             | Inr w2 \<Rightarrow> download_all l n xs w2)
          else download_all l n xs (snd (downloadFile n (url x) (filepath x) w)))"
  by (simp add: split_beta)

lemma download_all_sim:
  assumes "same_refusals (files wa) (files wb)"
  shows "same_run (download_all l n q wa) (download_all l n q wb) (files wa) (files wb)"
  using assms
proof (induction q arbitrary: wa wb)
  case Nil
  show ?case by (simp add: same_run_stop)
next
  case (Cons x xs)
  let ?da = "downloadFile n (url x) (filepath x) wa"
  let ?db = "downloadFile n (url x) (filepath x) wb"
  from downloadFile_sim[OF Cons.prems, of n "url x" "filepath x"] obtain ws1 where
    1: "files (snd ?da) = apply_writes ws1 (files wa)"
       "files (snd ?db) = apply_writes ws1 (files wb)" "accepted (files wa) ws1"
    and f: "fst ?db = fst ?da"
    by blast
  have s: "same_refusals (files (snd ?da)) (files (snd ?db))"
    unfolding 1(1,2) by (rule same_refusals_apply[OF Cons.prems 1(3)])
  consider (plain) "fst ?da = None \<or> \<not> isCss x"
    | (css) c where "fst ?da = Some c" "isCss x"
    by fastforce
  then show ?case
  proof cases
    case plain
    then have "download_all l n (x # xs) wa = download_all l n xs (snd ?da)"
      "download_all l n (x # xs) wb = download_all l n xs (snd ?db)"
      unfolding download_all_Cons[of l n x xs wa] download_all_Cons[of l n x xs wb] f
      by (auto split: option.splits)
    with same_run_after[OF 1 Cons.IH[OF s]] show ?thesis by simp
  next
    case css
    let ?pa = "processCss l n c (url x) (snd ?da)"
    let ?pb = "processCss l n c (url x) (snd ?db)"
    have p: "same_run ?pa ?pb (files (snd ?da)) (files (snd ?db))"
      unfolding processCss_def by (rule css_downloads_sim[OF s])
    have ea: "download_all l n (x # xs) wa =
        (case ?pa of Inl e \<Rightarrow> Inl e | Inr w2 \<Rightarrow> download_all l n xs w2)"
      unfolding download_all_Cons[of l n x xs wa] using css by simp
    have eb: "download_all l n (x # xs) wb =
        (case ?pb of Inl e \<Rightarrow> Inl e | Inr w2 \<Rightarrow> download_all l n xs w2)"
      unfolding download_all_Cons[of l n x xs wb] f using css by simp
    consider (threw) e wa2 where "?pa = Inl (e, wa2)" | (went) wa2 where "?pa = Inr wa2"
      by (metis old.sum.exhaust surj_pair)
    then have "same_run (download_all l n (x # xs) wa) (download_all l n (x # xs) wb)
        (files (snd ?da)) (files (snd ?db))"
    proof cases
      case threw
      from same_run_Inl[OF p threw] obtain wb2 where "?pb = Inl (e, wb2)" by blast
      with threw p show ?thesis unfolding ea eb by simp
    next
      case went
      from same_run_Inr[OF p went] obtain wb2 where wb2: "?pb = Inr wb2" by blast
      from p obtain ws2 where
        2: "files wa2 = apply_writes ws2 (files (snd ?da))"
           "files wb2 = apply_writes ws2 (files (snd ?db))" "accepted (files (snd ?da)) ws2"
        unfolding same_run_def went wb2 by auto
      have s2: "same_refusals (files wa2) (files wb2)"
        unfolding 2(1,2) by (rule same_refusals_apply[OF s 2(3)])
      from same_run_after[OF 2 Cons.IH[OF s2]] show ?thesis
        unfolding ea eb went wb2 by simp
    qed
    from same_run_after[OF 1 this] show ?thesis .
  qed
qed

lemma write_index_sim:
  assumes "same_refusals (files wa) (files wb)"
  shows "same_run (write_index l doc wa) (write_index l doc wb) (files wa) (files wb)"
proof -
  let ?p = "path_join l (OUT_DIR l) ''index.html''"
  let ?d = "cheerio_html l doc"
  consider (refused) e where "write_error (files wa) ?p = Some e"
    | (stored) "write_error (files wa) ?p = None"
    by fastforce
  then show ?thesis
  proof cases
    case refused
    then have "write_error (files wb) ?p = Some e" using assms by (simp add: same_refusals_def)
    with refused show ?thesis
      by (simp add: write_index_def writeFileSync_refuses same_run_stop)
  next
    case stored
    then have b: "write_error (files wb) ?p = None" using assms by (simp add: same_refusals_def)
    have "files (final_world (write_index l doc wa)) = apply_writes [(?p, ?d)] (files wa) \<and>
          files (final_world (write_index l doc wb)) = apply_writes [(?p, ?d)] (files wb) \<and>
          thrown (write_index l doc wb) = thrown (write_index l doc wa) \<and>
          accepted (files wa) [(?p, ?d)]"
      using stored b by (simp add: write_index_def writeFileSync_accepts accepted_def)
    then show ?thesis unfolding same_run_def by blast
  qed
qed

lemma main_sim:
  assumes "same_refusals fa fb"
  shows "same_run (main l n sn fa) (main l n sn fb) fa fb"
proof -
  consider (no_root) "root_document n = None" | (root) doc where "root_document n = Some doc"
    by fastforce
  then show ?thesis
  proof cases
    case no_root
    then show ?thesis by (simp add: main_def same_run_stop)
  next
    case root
    obtain doc' q where c: "collect l doc = (doc', q)" by fastforce
    let ?wa = "\<lparr>files = fa, requests = []\<rparr>"
    let ?wb = "\<lparr>files = fb, requests = []\<rparr>"
    let ?da = "download_all l n q ?wa"
    let ?db = "download_all l n q ?wb"
    have d: "same_run ?da ?db fa fb"
      using download_all_sim[of ?wa ?wb l n q] assms by simp
    have ea: "main l n sn fa =
        (case ?da of Inl e \<Rightarrow> Inl e
         | Inr w \<Rightarrow> write_index l (cheerio_append l (formFixerScript sn) doc') w)"
      by (simp add: main_def root c)
    have eb: "main l n sn fb =
        (case ?db of Inl e \<Rightarrow> Inl e
         | Inr w \<Rightarrow> write_index l (cheerio_append l (formFixerScript sn) doc') w)"
      by (simp add: main_def root c)
    consider (threw) e wa1 where "?da = Inl (e, wa1)" | (went) wa1 where "?da = Inr wa1"
      by (metis old.sum.exhaust surj_pair)
    then show ?thesis
    proof cases
      case threw
      from same_run_Inl[OF d threw] obtain wb1 where "?db = Inl (e, wb1)" by blast
      with threw d show ?thesis unfolding ea eb by simp
    next
      case went
      from same_run_Inr[OF d went] obtain wb1 where wb1: "?db = Inr wb1" by blast
      from d obtain ws1 where
        1: "files wa1 = apply_writes ws1 fa" "files wb1 = apply_writes ws1 fb" "accepted fa ws1"
        unfolding same_run_def went wb1 by auto
      have s: "same_refusals (files wa1) (files wb1)"
        unfolding 1(1,2) by (rule same_refusals_apply[OF assms 1(3)])
      from same_run_after[OF 1 write_index_sim[OF s]] show ?thesis
        unfolding ea eb went wb1 by simp
    qed
  qed
qed

lemma main_twice:
  "map_of (files (final_world (main l n sn (files (final_world (main l n sn fs)))))) =
     map_of (files (final_world (main l n sn fs))) \<and>
   map fst (files (final_world (main l n sn (files (final_world (main l n sn fs)))))) =
     map fst (files (final_world (main l n sn fs))) \<and>
   thrown (main l n sn (files (final_world (main l n sn fs)))) = thrown (main l n sn fs)"
proof -
  let ?f1 = "files (final_world (main l n sn fs))"
  from main_sim[OF same_refusals_refl, of l n sn fs] obtain ws where
    ws: "?f1 = apply_writes ws fs" "accepted fs ws"
    unfolding same_run_def by blast
  have s: "same_refusals fs ?f1" unfolding ws(1) by (rule same_refusals_accepted[OF ws(2)])
  from main_sim[OF s, of l n sn] obtain vs where
    2: "?f1 = apply_writes vs fs"
       "files (final_world (main l n sn ?f1)) = apply_writes vs ?f1"
       "thrown (main l n sn ?f1) = thrown (main l n sn fs)"
    unfolding same_run_def by blast
  have m: "map_of (files (final_world (main l n sn ?f1))) = map_of ?f1"
    using 2(1,2) apply_writes_twice[of vs fs] by simp
  have "fst ` set vs \<subseteq> fst ` set ?f1"
    using 2(1) keys_apply_writes[of vs fs] by auto
  from order_apply_writes[OF this] have "map fst (files (final_world (main l n sn ?f1))) = map fst ?f1"
    using 2(2) by simp
  with m 2(3) show ?thesis by simp
qed

lemma ensure_assets_dir_idem:
  "existsSync fs (ASSETS_DIR l) \<Longrightarrow> ensure_assets_dir l fs = fs"
  by (simp add: ensure_assets_dir_def)

lemma existsSync_keys: "existsSync fs p = (p \<in> fst ` set fs)"
  by (simp add: existsSync_def map_of_eq_None_iff)

text \<open>
  C9. Run the script, and run it again on the file system the first run left, against a
  network that answers every request as before. The second run ends as the first did
  (it completes, or stops at the same exception), and afterwards every path has the
  content it had after the first run: the same paths exist, in the same order, with the
  same bytes (index.html and every file under the assets directory among them).
\<close>

theorem idempotence:
  "map_of (files (final_world (sync_js l n sn (files (final_world (sync_js l n sn fs)))))) =
     map_of (files (final_world (sync_js l n sn fs))) \<and>
   map fst (files (final_world (sync_js l n sn (files (final_world (sync_js l n sn fs)))))) =
     map fst (files (final_world (sync_js l n sn fs))) \<and>
   thrown (sync_js l n sn (files (final_world (sync_js l n sn fs)))) = thrown (sync_js l n sn fs)"
proof -
  let ?fs = "ensure_assets_dir l fs"
  let ?f1 = "files (final_world (main l n sn ?fs))"
  from main_sim[OF same_refusals_refl, of l n sn ?fs] obtain ws where
    ws: "?f1 = apply_writes ws ?fs" unfolding same_run_def by blast
  have "existsSync ?fs (ASSETS_DIR l)"
    by (auto simp: ensure_assets_dir_def existsSync_keys AList.dom_update)
  then have "existsSync ?f1 (ASSETS_DIR l)"
    unfolding existsSync_keys ws keys_apply_writes by blast
  then have e: "ensure_assets_dir l ?f1 = ?f1" by (rule ensure_assets_dir_idem)
  from main_twice[of l n sn ?fs] show ?thesis by (simp add: sync_js_def e)
qed

theorem idempotence_witness:
  "sync_js node_lib manifest_net demo_snippets [(''/site'', Dir)] =
     Inr \<lparr>files = [(''/site'', Dir), (''/site/assets'', Dir),
                   (''/site/manifest.json'', File ''{}''),
                   (''/site/assets/style.css'', File ''body { background: url(manifest.json) }''),
                   (''/site/assets/manifest.json'', File ''{}''),
                   (''/site/index.html'',
                    File ''<link rel=manifest href=./manifest.json><link rel=stylesheet href=./assets/style.css><script>form</script>'')],
          requests = [(''https://global-indesign.base44.app/manifest.json'', ''/site/manifest.json''),
                      (''https://global-indesign.base44.app/style.css'', ''/site/assets/style.css''),
                      (''https://global-indesign.base44.app/manifest.json'', ''/site/assets/manifest.json'')]\<rparr> \<and>
   thrown (sync_js node_lib manifest_net demo_snippets
            [(''/site'', Dir), (''/site/assets'', Dir),
             (''/site/manifest.json'', File ''{}''),
             (''/site/assets/style.css'', File ''body { background: url(manifest.json) }''),
             (''/site/assets/manifest.json'', File ''{}''),
             (''/site/index.html'',
              File ''<link rel=manifest href=./manifest.json><link rel=stylesheet href=./assets/style.css><script>form</script>'')])
     = None \<and>
   map fst (files (final_world (sync_js node_lib manifest_net demo_snippets
            [(''/site'', Dir), (''/site/assets'', Dir),
             (''/site/manifest.json'', File ''{}''),
             (''/site/assets/style.css'', File ''body { background: url(manifest.json) }''),
             (''/site/assets/manifest.json'', File ''{}''),
             (''/site/index.html'',
              File ''<link rel=manifest href=./manifest.json><link rel=stylesheet href=./assets/style.css><script>form</script>'')]))) =
     [''/site'', ''/site/assets'', ''/site/manifest.json'', ''/site/assets/style.css'',
      ''/site/assets/manifest.json'', ''/site/index.html'']"
proof -
  let ?w = "\<lparr>files = [(''/site'', Dir), (''/site/assets'', Dir),
                   (''/site/manifest.json'', File ''{}''),
                   (''/site/assets/style.css'', File ''body { background: url(manifest.json) }''),
                   (''/site/assets/manifest.json'', File ''{}''),
                   (''/site/index.html'',
                    File ''<link rel=manifest href=./manifest.json><link rel=stylesheet href=./assets/style.css><script>form</script>'')],
          requests = [(''https://global-indesign.base44.app/manifest.json'', ''/site/manifest.json''),
                      (''https://global-indesign.base44.app/style.css'', ''/site/assets/style.css''),
                      (''https://global-indesign.base44.app/manifest.json'', ''/site/assets/manifest.json'')]\<rparr>"
  have h: "sync_js node_lib manifest_net demo_snippets [(''/site'', Dir)] = Inr ?w"
    by code_simp
  from idempotence[of node_lib manifest_net demo_snippets "[(''/site'', Dir)]"]
  show ?thesis unfolding h by simp
qed

section \<open>References in stylesheets\<close>

lemma css_stored_cong:
  assumes "same_refusals A B"
  shows "css_stored l n b A us = css_stored l n b B us"
proof -
  have "write_error A = write_error B" using assms by (simp add: same_refusals_def fun_eq_iff)
  then show ?thesis by (simp add: css_stored_def cong: option.case_cong)
qed

lemma css_stored_Cons:
  "URL l u (Some b) = Some a \<Longrightarrow>
   apply_writes (css_stored l n b (files w) (u # us)) (files w) =
     apply_writes (css_stored l n b (files w) us)
       (files (snd (downloadFile n (href a) (css_filepath l u) w)))"
  by (auto simp: css_stored_def List.map_filter_simps downloadFile_files split: option.splits)

lemma css_downloads_effect:
  "list_all (\<lambda>u. URL l u (Some b) \<noteq> None) us \<Longrightarrow>
   css_downloads l n b us w =
     Inr \<lparr>files = apply_writes (css_stored l n b (files w) us) (files w),
          requests = requests w @ map (\<lambda>u. (href (the (URL l u (Some b))), css_filepath l u)) us\<rparr>"
proof (induction us arbitrary: w)
  case Nil
  then show ?case by (simp add: css_stored_def List.map_filter_simps)
next
  case (Cons u us)
  then obtain a where a: "URL l u (Some b) = Some a" by auto
  define w1 where "w1 = snd (downloadFile n (href a) (css_filepath l u) w)"
  from Cons.prems have "list_all (\<lambda>u. URL l u (Some b) \<noteq> None) us" by simp
  from Cons.IH[OF this, of w1]
  have "css_downloads l n b us w1 =
     Inr \<lparr>files = apply_writes (css_stored l n b (files w1) us) (files w1),
          requests = requests w1 @ map (\<lambda>u. (href (the (URL l u (Some b))), css_filepath l u)) us\<rparr>" .
  moreover have "css_stored l n b (files w1) us = css_stored l n b (files w) us"
    unfolding w1_def using css_stored_cong[OF downloadFile_refusals] by metis
  moreover have "requests w1 = requests w @ [(href a, css_filepath l u)]"
    unfolding w1_def by (rule downloadFile_requests)
  ultimately show ?case
    using a css_stored_Cons[OF a, of n w us] unfolding w1_def by simp
qed

text \<open>
  When every reference of a stylesheet that starts with neither \<^verbatim>\<open>data:\<close> nor \<^verbatim>\<open>http\<close>
  resolves against the stylesheet's URL, \<open>processCss\<close> returns. Its requests are, in
  order, one per such reference: the target is the \<open>href\<close> of the reference itself (query
  and fragment included) resolved against the stylesheet's URL, and the file is the
  basename of the reference cut at the first \<^verbatim>\<open>#\<close> and \<^verbatim>\<open>?\<close>, in the assets directory. Its
  writes are those of \<open>css_stored\<close>. References that start with \<^verbatim>\<open>data:\<close> or \<^verbatim>\<open>http\<close> add
  no request and no file.
\<close>

lemma css_reference_resolution:
  assumes "list_all (\<lambda>u. URL l u (Some baseUrl) \<noteq> None) (css_candidates cssText)"
  shows "processCss l n cssText baseUrl w =
           Inr \<lparr>files = apply_writes (css_stored l n baseUrl (files w) (css_candidates cssText)) (files w),
                requests = requests w @
                  map (\<lambda>u. (href (the (URL l u (Some baseUrl))),
                             path_join l (ASSETS_DIR l)
                               (path_basename l
                                 (takeWhile (\<lambda>c. c \<noteq> CHR ''?'') (takeWhile (\<lambda>c. c \<noteq> CHR ''#'') u)))))
                    (filter (\<lambda>u. \<not> prefix ''data:'' u \<and> \<not> prefix ''http'' u) (css_url_matches cssText))\<rparr>"
  using css_downloads_effect[OF assms, of n w]
  by (simp add: processCss_def css_candidates_def css_filepath_def cleanRelUrl_def)

text \<open>The scenario of the specification, with a site that serves the font.\<close>

lemma css_scenario:
  "css_url_matches font_css = [''../fonts/a.woff2?v=2'', ''data:image/png;base64,AAAA''] \<and>
   processCss node_lib font_net font_css ''https://example.com/assets/style.css''
       \<lparr>files = fresh_fs, requests = []\<rparr> =
     Inr \<lparr>files = [(''/site'', Dir), (''/site/assets'', Dir), (''/site/assets/a.woff2'', File ''WOFF2'')],
          requests = [(''https://example.com/fonts/a.woff2?v=2'', ''/site/assets/a.woff2'')]\<rparr>"
proof -
  let ?base = "''https://example.com/assets/style.css''"
  let ?w = "\<lparr>files = fresh_fs, requests = []\<rparr>"
  have m: "css_url_matches font_css = [''../fonts/a.woff2?v=2'', ''data:image/png;base64,AAAA'']"
    by code_simp
  have h: "list_all (\<lambda>u. URL node_lib u (Some ?base) \<noteq> None) (css_candidates font_css)"
    by code_simp
  have f: "apply_writes (css_stored node_lib font_net ?base (files ?w) (css_candidates font_css)) (files ?w) =
      [(''/site'', Dir), (''/site/assets'', Dir), (''/site/assets/a.woff2'', File ''WOFF2'')]"
    by code_simp
  have e: "map (\<lambda>u. (href (the (URL node_lib u (Some ?base))),
                        path_join node_lib (ASSETS_DIR node_lib)
                          (path_basename node_lib
                            (takeWhile (\<lambda>c. c \<noteq> CHR ''?'') (takeWhile (\<lambda>c. c \<noteq> CHR ''#'') u)))))
               (filter (\<lambda>u. \<not> prefix ''data:'' u \<and> \<not> prefix ''http'' u) (css_url_matches font_css))
         = [(''https://example.com/fonts/a.woff2?v=2'', ''/site/assets/a.woff2'')]"
    by code_simp
  from css_reference_resolution[OF h, of font_net ?w] show ?thesis
    unfolding f e using m by simp
qed

text \<open>
  C5 fails on the code. \<open>processCss\<close> calls the URL constructor outside any \<^verbatim>\<open>try\<close>,
  where \<open>addAsset\<close> catches the exception of the same call. The stylesheet below has three
  references that start with neither \<^verbatim>\<open>data:\<close> nor \<^verbatim>\<open>http\<close>. The second has no host: the
  constructor throws on it, and the exception ends \<open>processCss\<close> and the run. The third
  reference resolves and its request would succeed, but it is never requested and its
  file is never stored, and index.html is not written.
\<close>

theorem css_invalid_reference_aborts:
  "css_candidates broken_css = [''one.png'', ''//'', ''two.png''] \<and>
   URL node_lib ''//'' (Some ''https://global-indesign.base44.app/assets/style.css'') = None \<and>
   processCss node_lib broken_net broken_css ''https://global-indesign.base44.app/assets/style.css''
       \<lparr>files = fresh_fs, requests = []\<rparr> =
     Inl (InvalidURL,
          \<lparr>files = [(''/site'', Dir), (''/site/assets'', Dir), (''/site/assets/one.png'', File ''ONE'')],
           requests = [(''https://global-indesign.base44.app/assets/one.png'', ''/site/assets/one.png'')]\<rparr>) \<and>
   main node_lib broken_net demo_snippets fresh_fs =
     Inl (InvalidURL,
          \<lparr>files = [(''/site'', Dir), (''/site/assets'', Dir),
                    (''/site/assets/style.css'', File broken_css),
                    (''/site/assets/one.png'', File ''ONE'')],
           requests = [(''https://global-indesign.base44.app/assets/style.css'', ''/site/assets/style.css''),
                       (''https://global-indesign.base44.app/assets/one.png'', ''/site/assets/one.png'')]\<rparr>)"
  by code_simp

section \<open>The final audit\<close>

text \<open>
  C8 fails on the code of the first revision. The audit reads index.html of the output
  directory, and the script writes that file in its last step only. In a fresh output
  directory the read fails with ENOENT, nothing catches it, and the run ends there with
  no index.html written, although every request succeeded. In a directory that holds
  the index.html of an earlier run, the audit reads that earlier file: the warning below
  is about a path of the old file that the new document does not name.
\<close>

theorem audit_aborts_fresh_directory:
  "main_rev1 node_lib (logo_net one_image) demo_snippets fresh_fs =
     Inl (ENOENT,
          \<lparr>files = [(''/site'', Dir), (''/site/assets'', Dir), (''/site/assets/logo.png'', File ''PNG'')],
           requests = [(''https://global-indesign.base44.app/img/logo.png'', ''/site/assets/logo.png'')]\<rparr>) \<and>
   main_rev1 node_lib (logo_net one_image) demo_snippets
       (fresh_fs @ [(''/site/index.html'', File ''<img src=./assets/gone.png>'')]) =
     Inr (\<lparr>files = [(''/site'', Dir), (''/site/assets'', Dir),
                    (''/site/index.html'',
                     File ''<img src=./assets/logo.png alt=Global Indesign Studio Asset><script>form</script><script>chat</script>''),
                    (''/site/assets/logo.png'', File ''PNG'')],
           requests = [(''https://global-indesign.base44.app/img/logo.png'', ''/site/assets/logo.png'')]\<rparr>,
          [''./assets/gone.png''])"
  by code_simp

section \<open>Remote URLs in scripts\<close>


lemma replace_all_pat:
  "pat \<noteq> [] \<Longrightarrow> replace_all pat rep (pat @ rest) = rep @ replace_all pat rep rest"
  by (cases pat) simp_all

lemma regex_scan_nonempty: "x \<in> set (regex_scan lit ok s) \<Longrightarrow> x \<noteq> []"
  by (induction lit ok s rule: regex_scan.induct) (auto split: if_splits)

lemma body_prefix_stops:
  assumes "list_all ok lit" "r = [] \<or> \<not> ok (hd r)" "prefix lit (x @ r)"
  shows "prefix lit x"
proof -
  from assms(3) have "prefix lit x \<or> (\<exists>us. lit = x @ us \<and> prefix us r)"
    by (simp add: prefix_append)
  then show ?thesis
  proof
    assume "prefix lit x"
    then show ?thesis .
  next
    assume "\<exists>us. lit = x @ us \<and> prefix us r"
    then obtain us where us: "lit = x @ us" "prefix us r" by blast
    show ?thesis
    proof (cases us)
      case Nil
      with us(1) show ?thesis by simp
    next
      case (Cons b us')
      with us(2) have r: "r \<noteq> []" "hd r = b" by (auto simp: prefix_def)
      have "ok b" using assms(1) us(1) Cons by simp
      with r assms(2) show ?thesis by simp
    qed
  qed
qed

lemma match_form:
  "m \<in> set (regex_scan lit ok s) \<Longrightarrow> \<exists>t. m = lit @ t \<and> t \<noteq> [] \<and> list_all ok t"
proof (induction lit ok s rule: regex_scan.induct)
  case (1 lit ok)
  then show ?case by simp
next
  case (2 lit ok c cs)
  let ?T = "takeWhile ok (drop (length lit) (c # cs))"
  consider (True) "prefix lit (c # cs) \<and> ?T \<noteq> []" | (False) "\<not> (prefix lit (c # cs) \<and> ?T \<noteq> [])" by blast
  then show ?case
  proof cases
    case True
    with 2 consider "m = lit @ ?T" | "m \<in> set (regex_scan lit ok (dropWhile ok (drop (length lit) (c # cs))))"
      by auto
    then show ?thesis
    proof cases
      case 1
      have "list_all ok ?T" by (simp add: list_all_iff) (meson set_takeWhileD)
      with 1 True show ?thesis by blast
    next
      case 2
      with "2.IH"(1)[OF True] show ?thesis by blast
    qed
  next
    case False
    with 2 show ?thesis by auto
  qed
qed

text \<open>Skipping a stretch of text in which nothing starts.\<close>

lemma replace_all_skip:
  assumes "u \<noteq> []"
  shows "(\<And>k. k < length x \<Longrightarrow> \<not> prefix u (drop k x @ r)) \<Longrightarrow>
         replace_all u rep (x @ r) = x @ replace_all u rep r"
proof (induction x)
  case Nil
  then show ?case by simp
next
  case (Cons c x)
  have 0: "\<not> prefix u ((c # x) @ r)" using Cons.prems[of 0] by simp
  have "\<And>k. k < length x \<Longrightarrow> \<not> prefix u (drop k x @ r)"
    using Cons.prems[of "Suc k" for k] by simp
  from Cons.IH[OF this] show ?case using 0 assms by simp
qed

lemma regex_scan_skip:
  "(\<And>k. k < length x \<Longrightarrow> \<not> prefix lit (drop k x @ r)) \<Longrightarrow>
   regex_scan lit ok (x @ r) = regex_scan lit ok r"
proof (induction x)
  case Nil
  then show ?case by simp
next
  case (Cons c x)
  have 0: "\<not> prefix lit ((c # x) @ r)" using Cons.prems[of 0] by simp
  have "\<And>k. k < length x \<Longrightarrow> \<not> prefix lit (drop k x @ r)"
    using Cons.prems[of "Suc k" for k] by simp
  from Cons.IH[OF this] show ?case using 0 by simp
qed

lemma nothing_starts:
  assumes "list_all ok v" "r = [] \<or> \<not> ok (hd r)" "\<not> sublist v x"
  shows "\<not> prefix v (drop k x @ r)"
proof
  assume "prefix v (drop k x @ r)"
  from body_prefix_stops[OF assms(1,2) this] have "sublist v (drop k x)"
    by (rule prefix_imp_sublist)
  moreover have "sublist (drop k x) x"
    by (metis append_take_drop_id sublist_appendI append_Nil2)
  ultimately have "sublist v x" by (rule sublist_order.order_trans)
  with assms(3) show False by simp
qed

text \<open>The text at a match.\<close>

lemma hit_split:
  "prefix lit s \<Longrightarrow>
   s = (lit @ takeWhile ok (drop (length lit) s)) @ dropWhile ok (drop (length lit) s)"
  by (auto simp: prefix_def)

lemma after_match: "dropWhile ok xs = [] \<or> \<not> ok (hd (dropWhile ok xs))"
  using hd_dropWhile[of ok xs] by blast

lemma substitute_stop:
  assumes "list_all ok lit" "lit \<noteq> []" "r = [] \<or> \<not> ok (hd r)"
  shows "substitute lit ok g r = [] \<or> \<not> ok (hd (substitute lit ok g r))"
proof (cases r)
  case Nil
  then show ?thesis by simp
next
  case (Cons b r')
  with assms(3) have b: "\<not> ok b" by simp
  have "ok (hd lit)" using assms(1,2) by (cases lit) auto
  with b have "\<not> prefix lit (b # r')" using assms(2) by (cases lit) auto
  then show ?thesis using b by (simp add: Cons)
qed

lemma substitute_id: "substitute lit ok (\<lambda>m. m) s = s"
proof (induction s rule: length_induct)
  case (1 s)
  show ?case
  proof (cases s)
    case Nil
    then show ?thesis by simp
  next
    case (Cons c cs)
    define T where "T = takeWhile ok (drop (length lit) s)"
    define rest where "rest = dropWhile ok (drop (length lit) s)"
    consider (hit) "prefix lit s \<and> T \<noteq> []" | (miss) "\<not> (prefix lit s \<and> T \<noteq> [])" by blast
    then show ?thesis
    proof cases
      case hit
      then have s: "s = (lit @ T) @ rest" unfolding T_def rest_def using hit_split by blast
      have "length s = length (lit @ T) + length rest" by (subst s) simp
      with hit have "length rest < length s" by simp
      with "1.IH" have "substitute lit ok (\<lambda>m. m) rest = rest" by blast
      moreover have "substitute lit ok (\<lambda>m. m) s = (lit @ T) @ substitute lit ok (\<lambda>m. m) rest"
        using hit unfolding T_def rest_def Cons by simp
      ultimately show ?thesis using s by simp
    next
      case miss
      then have "substitute lit ok (\<lambda>m. m) s = c # substitute lit ok (\<lambda>m. m) cs"
        unfolding T_def Cons by auto
      moreover have "substitute lit ok (\<lambda>m. m) cs = cs" using "1.IH" Cons by simp
      ultimately show ?thesis using Cons by simp
    qed
  qed
qed

lemma substitute_cong:
  "(\<And>m. m \<in> set (regex_scan lit ok s) \<Longrightarrow> f m = g m) \<Longrightarrow>
   substitute lit ok f s = substitute lit ok g s"
proof (induction s rule: length_induct)
  case (1 s)
  show ?case
  proof (cases s)
    case Nil
    then show ?thesis by simp
  next
    case (Cons c cs)
    define T where "T = takeWhile ok (drop (length lit) s)"
    define rest where "rest = dropWhile ok (drop (length lit) s)"
    consider (hit) "prefix lit s \<and> T \<noteq> []" | (miss) "\<not> (prefix lit s \<and> T \<noteq> [])" by blast
    then show ?thesis
    proof cases
      case hit
      then have s: "s = (lit @ T) @ rest" unfolding T_def rest_def using hit_split by blast
      have "length s = length (lit @ T) + length rest" by (subst s) simp
      with hit have len: "length rest < length s" by simp
      have sc: "regex_scan lit ok s = (lit @ T) # regex_scan lit ok rest"
        using hit unfolding T_def rest_def Cons by simp
      have "substitute lit ok f rest = substitute lit ok g rest"
        using "1.IH" len "1.prems" sc by simp
      moreover have "f (lit @ T) = g (lit @ T)" using "1.prems" sc by simp
      moreover have "substitute lit ok f s = f (lit @ T) @ substitute lit ok f rest"
        "substitute lit ok g s = g (lit @ T) @ substitute lit ok g rest"
        using hit unfolding T_def rest_def Cons by simp_all
      ultimately show ?thesis by simp
    next
      case miss
      then have "substitute lit ok f s = c # substitute lit ok f cs"
        "substitute lit ok g s = c # substitute lit ok g cs"
        "regex_scan lit ok s = regex_scan lit ok cs"
        unfolding T_def Cons by auto
      moreover have "substitute lit ok f cs = substitute lit ok g cs"
        using "1.IH" "1.prems" Cons calculation(3) by simp
      ultimately show ?thesis by simp
    qed
  qed
qed

text \<open>Where a rewritten text first differs from the text.\<close>

lemma first_change:
  "substitute lit ok g s = s \<or>
   (\<exists>pre m rest. s = pre @ m @ rest \<and> m \<in> set (regex_scan lit ok s) \<and> g m \<noteq> m \<and>
      substitute lit ok g s = pre @ g m @ substitute lit ok g rest)"
proof (induction s rule: length_induct)
  case (1 s)
  show ?case
  proof (cases s)
    case Nil
    then show ?thesis by simp
  next
    case (Cons c cs)
    define T where "T = takeWhile ok (drop (length lit) s)"
    define rest where "rest = dropWhile ok (drop (length lit) s)"
    consider (changed) "prefix lit s \<and> T \<noteq> []" "g (lit @ T) \<noteq> lit @ T"
      | (kept) "prefix lit s \<and> T \<noteq> []" "g (lit @ T) = lit @ T"
      | (miss) "\<not> (prefix lit s \<and> T \<noteq> [])" by blast
    then show ?thesis
    proof cases
      case changed
      then have s: "s = [] @ (lit @ T) @ rest" unfolding T_def rest_def using hit_split by fastforce
      have sc: "regex_scan lit ok s = (lit @ T) # regex_scan lit ok rest"
        using changed(1) unfolding T_def rest_def Cons by simp
      have "substitute lit ok g s = [] @ g (lit @ T) @ substitute lit ok g rest"
        using changed(1) unfolding T_def rest_def Cons by simp
      with s sc changed(2) show ?thesis by (metis list.set_intros(1))
    next
      case kept
      then have s: "s = (lit @ T) @ rest" unfolding T_def rest_def using hit_split by blast
      have "length s = length (lit @ T) + length rest" by (subst s) simp
      with kept have len: "length rest < length s" by simp
      have sc: "regex_scan lit ok s = (lit @ T) # regex_scan lit ok rest"
        using kept(1) unfolding T_def rest_def Cons by simp
      have sb: "substitute lit ok g s = (lit @ T) @ substitute lit ok g rest"
        using kept unfolding T_def rest_def Cons by simp
      from "1.IH" len consider (same) "substitute lit ok g rest = rest"
        | (differs) pre m r2 where "rest = pre @ m @ r2" "m \<in> set (regex_scan lit ok rest)"
            "g m \<noteq> m" "substitute lit ok g rest = pre @ g m @ substitute lit ok g r2"
        by blast
      then show ?thesis
      proof cases
        case same
        with sb s show ?thesis by simp
      next
        case differs
        have "s = ((lit @ T) @ pre) @ m @ r2" using s differs(1) by simp
        moreover have "m \<in> set (regex_scan lit ok s)" using sc differs(2) by simp
        moreover have "substitute lit ok g s = ((lit @ T) @ pre) @ g m @ substitute lit ok g r2"
          using sb differs(4) by simp
        ultimately show ?thesis using differs(3) by blast
      qed
    next
      case miss
      then have sb: "substitute lit ok g s = c # substitute lit ok g cs"
        and sc: "regex_scan lit ok s = regex_scan lit ok cs"
        unfolding T_def Cons by auto
      from "1.IH" Cons consider (same) "substitute lit ok g cs = cs"
        | (differs) pre m r2 where "cs = pre @ m @ r2" "m \<in> set (regex_scan lit ok cs)"
            "g m \<noteq> m" "substitute lit ok g cs = pre @ g m @ substitute lit ok g r2"
        by (metis length_Cons lessI)
      then show ?thesis
      proof cases
        case same
        with sb Cons show ?thesis by simp
      next
        case differs
        have "s = (c # pre) @ m @ r2" using Cons differs(1) by simp
        moreover have "m \<in> set (regex_scan lit ok s)" using sc differs(2) by simp
        moreover have "substitute lit ok g s = (c # pre) @ g m @ substitute lit ok g r2"
          using sb differs(4) by simp
        ultimately show ?thesis using differs(3) by blast
      qed
    qed
  qed
qed

text \<open>
  A rewritten text starts with the literal and a character of the class only where the
  text itself has a match. The literal ends with \<open>sl\<close> and holds no \<open>dot\<close> followed by
  \<open>sl\<close>, and every replacement starts with \<open>dot\<close> and \<open>sl\<close>.
\<close>

lemma head_stable:
  assumes lit: "list_all ok lit" "lit \<noteq> []" "last lit = sl" "\<not> sublist [dot, sl] lit" "dot \<noteq> sl"
    and img: "\<And>m. m \<in> set (regex_scan lit ok s) \<Longrightarrow> g m = m \<or> (\<exists>z. g m = dot # sl # z)"
    and miss: "\<not> (prefix lit s \<and> takeWhile ok (drop (length lit) s) \<noteq> [])"
    and x: "ok x"
  shows "\<not> prefix (lit @ [x]) (substitute lit ok g s)"
proof
  assume p: "prefix (lit @ [x]) (substitute lit ok g s)"
  have hit_at: "prefix lit s \<and> takeWhile ok (drop (length lit) s) \<noteq> []"
    if "s = lit @ y # q" "ok y" for y q
    using that by simp
  from first_change[of lit ok g s] consider (same) "substitute lit ok g s = s"
    | (differs) pre m rest where "s = pre @ m @ rest" "m \<in> set (regex_scan lit ok s)"
        "g m \<noteq> m" "substitute lit ok g s = pre @ g m @ substitute lit ok g rest"
    by blast
  then show False
  proof cases
    case same
    with p obtain q where "s = (lit @ [x]) @ q" by (auto simp: prefix_def)
    then have "s = lit @ x # q" by simp
    from hit_at[OF this x] miss show False by blast
  next
    case differs
    from img[OF differs(2)] differs(3) obtain z where z: "g m = dot # sl # z" by blast
    from match_form[OF differs(2)] obtain t where t: "m = lit @ t" "t \<noteq> []" "list_all ok t"
      by blast
    have mne: "m \<noteq> []" using t(1) lit(2) by simp
    have okm: "ok (hd m)" using t(1) lit(1,2) by (cases lit) auto
    obtain b m' where m: "m = b # m'" "ok b" using mne okm by (cases m) auto
    define L where "L = pre @ g m @ substitute lit ok g rest"
    have pL: "prefix pre L" unfolding L_def by simp
    have xL: "prefix (lit @ [x]) L" using p differs(4) unfolding L_def by simp
    have PL: "prefix lit L" using xL by (metis prefix_order.order_trans prefixI)
    consider (long) "length lit < length pre" | (exact) "length pre = length lit"
      | (short) "length pre < length lit"
      by linarith
    then show False
    proof cases
      case long
      then have "length (lit @ [x]) \<le> length pre" by simp
      from prefix_length_prefix[OF xL pL this]
      obtain q where "pre = (lit @ [x]) @ q" by (auto simp: prefix_def)
      then have "s = lit @ x # (q @ m @ rest)" using differs(1) by simp
      from hit_at[OF this x] miss show False by blast
    next
      case exact
      then have "length lit \<le> length pre" by simp
      from prefix_length_prefix[OF PL pL this]
      obtain zs where zs: "pre = lit @ zs" by (auto simp: prefix_def)
      have "length pre = length lit + length zs" by (subst zs) simp
      with exact have "zs = []" by simp
      with zs have "s = lit @ b # (m' @ rest)" using differs(1) m(1) by simp
      from hit_at[OF this m(2)] miss show False by blast
    next
      case short
      then have "length pre \<le> length lit" by simp
      from prefix_length_prefix[OF pL PL this]
      obtain y where y1: "lit = pre @ y" by (auto simp: prefix_def)
      have y2: "y \<noteq> []" using short by (subst (asm) y1) simp
      from xL obtain q where "L = (lit @ [x]) @ q" by (auto simp: prefix_def)
      then have "pre @ (y @ x # q) = pre @ (g m @ substitute lit ok g rest)"
        unfolding L_def by (subst (asm) y1) simp
      then have "y @ x # q = g m @ substitute lit ok g rest" by (simp only: same_append_eq)
      with z have y3: "y @ x # q = dot # sl # (z @ substitute lit ok g rest)" by simp
      then obtain y' where y': "y = dot # y'" using y2 by (cases y) auto
      show False
      proof (cases y')
        case Nil
        have "last (pre @ y) = dot" using y' Nil by simp
        then have "last lit = dot" by (subst y1)
        with lit(3,5) show False by simp
      next
        case (Cons a y'')
        with y3 y' have a: "a = sl" by simp
        have "sublist [dot, sl] (pre @ [dot, sl] @ y'')" by (intro sublist_appendI)
        then have "sublist [dot, sl] (pre @ y)" using y' Cons a by simp
        then have "sublist [dot, sl] lit" by (subst y1)
        with lit(4) show False by simp
      qed
    qed
  qed
qed

text \<open>
  One turn of the loop on a text in which the matches of \<open>D\<close> are already replaced:
  replacing \<open>u\<close> replaces the matches equal to \<open>u\<close> and nothing else, provided no match
  outside \<open>D\<close> contains \<open>u\<close>.
\<close>

lemma replace_step:
  assumes lit: "list_all ok lit" "lit \<noteq> []" "last lit = sl" "\<not> sublist [dot, sl] lit" "dot \<noteq> sl"
      "sublist [sl, sl] lit"
    and u: "u = lit @ t" "t \<noteq> []" "list_all ok t"
  shows "(\<And>m. m \<in> set (regex_scan lit ok s) \<Longrightarrow> (\<exists>z. f m = dot # sl # z) \<and> \<not> sublist [sl, sl] (f m)) \<Longrightarrow>
         (\<And>m. m \<in> set (regex_scan lit ok s) \<Longrightarrow> m \<notin> D \<Longrightarrow> sublist u m \<Longrightarrow> m = u) \<Longrightarrow>
         replace_all u (f u) (substitute lit ok (\<lambda>m. if m \<in> D then f m else m) s) =
           substitute lit ok (\<lambda>m. if m \<in> insert u D then f m else m) s"
proof (induction s rule: length_induct)
  case (1 s)
  define g where "g = (\<lambda>m. if m \<in> D then f m else m)"
  define g' where "g' = (\<lambda>m. if m \<in> insert u D then f m else m)"
  have une: "u \<noteq> []" using u(1) lit(2) by simp
  have uok: "list_all ok u" using u(1,3) lit(1) by simp
  have udbl: "sublist [sl, sl] u"
    using lit(6) u(1) by (metis sublist_order.order_trans prefix_imp_sublist prefixI)
  have IH: "replace_all u (f u) (substitute lit ok g r) = substitute lit ok g' r"
    if "length r < length s" "set (regex_scan lit ok r) \<subseteq> set (regex_scan lit ok s)" for r
    unfolding g_def g'_def using "1.IH" that "1.prems" by blast
  have goal: "replace_all u (f u) (substitute lit ok g s) = substitute lit ok g' s"
  proof (cases s)
    case Nil
    then show ?thesis by simp
  next
    case (Cons c cs)
    define T where "T = takeWhile ok (drop (length lit) s)"
    define rest where "rest = dropWhile ok (drop (length lit) s)"
    consider (hit) "prefix lit s \<and> T \<noteq> []" | (miss) "\<not> (prefix lit s \<and> T \<noteq> [])" by blast
    then show ?thesis
    proof cases
      case hit
      define m where "m = lit @ T"
      from hit have s: "s = m @ rest" unfolding m_def T_def rest_def using hit_split by blast
      have "length s = length m + length rest" by (subst s) simp
      with hit have len: "length rest < length s" by (simp add: m_def)
      have sc: "regex_scan lit ok s = m # regex_scan lit ok rest"
        using hit unfolding m_def T_def rest_def Cons by simp
      have sb: "substitute lit ok h s = h m @ substitute lit ok h rest" for h
        using hit unfolding m_def T_def rest_def Cons by simp
      define R where "R = substitute lit ok g rest"
      have stopR: "R = [] \<or> \<not> ok (hd R)"
        unfolding R_def rest_def by (rule substitute_stop[OF lit(1,2) after_match])
      have ih: "replace_all u (f u) R = substitute lit ok g' rest"
        unfolding R_def using IH[OF len] sc by auto
      have mm: "m \<in> set (regex_scan lit ok s)" using sc by simp
      consider (replaced) "m \<in> D" | (same) "m \<notin> D" "m = u" | (other) "m \<notin> D" "m \<noteq> u" by blast
      then show ?thesis
      proof cases
        case replaced
        have "\<not> sublist u (f m)"
        proof
          assume "sublist u (f m)"
          with udbl have "sublist [sl, sl] (f m)" by (rule sublist_order.order_trans)
          with "1.prems"(1)[OF mm] show False by simp
        qed
        then have "\<And>k. k < length (f m) \<Longrightarrow> \<not> prefix u (drop k (f m) @ R)"
          using nothing_starts[OF uok stopR] by blast
        from replace_all_skip[OF une this]
        have "replace_all u (f u) (f m @ R) = f m @ substitute lit ok g' rest"
          using ih by simp
        then show ?thesis using replaced sb[of g] sb[of g'] unfolding R_def by (simp add: g_def g'_def)
      next
        case same
        have "replace_all u (f u) (u @ R) = f u @ substitute lit ok g' rest"
          using replace_all_pat[OF une, of "f u" R] ih by simp
        then show ?thesis using same sb[of g] sb[of g'] unfolding R_def by (simp add: g_def g'_def)
      next
        case other
        have "\<not> sublist u m" using "1.prems"(2)[OF mm other(1)] other(2) by blast
        then have "\<And>k. k < length m \<Longrightarrow> \<not> prefix u (drop k m @ R)"
          using nothing_starts[OF uok stopR] by blast
        from replace_all_skip[OF une this]
        have "replace_all u (f u) (m @ R) = m @ substitute lit ok g' rest"
          using ih by simp
        then show ?thesis using other sb[of g] sb[of g'] unfolding R_def by (simp add: g_def g'_def)
      qed
    next
      case miss
      then have sb: "substitute lit ok h s = c # substitute lit ok h cs" for h
        unfolding T_def Cons by auto
      have sc: "regex_scan lit ok s = regex_scan lit ok cs"
        using miss unfolding T_def Cons by auto
      have ih: "replace_all u (f u) (substitute lit ok g cs) = substitute lit ok g' cs"
        using IH[of cs] sc Cons by simp
      have img: "\<And>m. m \<in> set (regex_scan lit ok s) \<Longrightarrow> g m = m \<or> (\<exists>z. g m = dot # sl # z)"
        using "1.prems"(1) by (auto simp: g_def)
      have okt: "ok (hd t)" using u(2,3) by (cases t) auto
      have "\<not> prefix (lit @ [hd t]) (substitute lit ok g s)"
        using head_stable[OF lit(1-5) img _ okt] miss unfolding T_def by blast
      moreover have "prefix (lit @ [hd t]) u" using u(1,2) by (cases t) auto
      ultimately have "\<not> prefix u (c # substitute lit ok g cs)"
        unfolding sb[of g] using prefix_order.order_trans by blast
      then show ?thesis using une ih unfolding sb[of g] sb[of g'] by simp
    qed
  qed
  then show ?case unfolding g_def g'_def .
qed

lemma substitute_clean:
  assumes lit: "list_all ok lit" "lit \<noteq> []" "last lit = sl" "\<not> sublist [dot, sl] lit" "dot \<noteq> sl"
      "sublist [sl, sl] lit"
  shows "(\<And>m. m \<in> set (regex_scan lit ok s) \<Longrightarrow> (\<exists>z. f m = dot # sl # z) \<and> \<not> sublist [sl, sl] (f m)) \<Longrightarrow>
         regex_scan lit ok (substitute lit ok f s) = []"
proof (induction s rule: length_induct)
  case (1 s)
  show ?case
  proof (cases s)
    case Nil
    then show ?thesis by simp
  next
    case (Cons c cs)
    define T where "T = takeWhile ok (drop (length lit) s)"
    define rest where "rest = dropWhile ok (drop (length lit) s)"
    consider (hit) "prefix lit s \<and> T \<noteq> []" | (miss) "\<not> (prefix lit s \<and> T \<noteq> [])" by blast
    then show ?thesis
    proof cases
      case hit
      define m where "m = lit @ T"
      from hit have s: "s = m @ rest" unfolding m_def T_def rest_def using hit_split by blast
      have "length s = length m + length rest" by (subst s) simp
      with hit have len: "length rest < length s" by (simp add: m_def)
      have sc: "regex_scan lit ok s = m # regex_scan lit ok rest"
        using hit unfolding m_def T_def rest_def Cons by simp
      have sb: "substitute lit ok f s = f m @ substitute lit ok f rest"
        using hit unfolding m_def T_def rest_def Cons by simp
      define R where "R = substitute lit ok f rest"
      have stopR: "R = [] \<or> \<not> ok (hd R)"
        unfolding R_def rest_def by (rule substitute_stop[OF lit(1,2) after_match])
      have ih: "regex_scan lit ok R = []"
        unfolding R_def using "1.IH" len "1.prems" sc by simp
      have mm: "m \<in> set (regex_scan lit ok s)" using sc by simp
      have "\<not> sublist lit (f m)"
      proof
        assume "sublist lit (f m)"
        with lit(6) have "sublist [sl, sl] (f m)" by (rule sublist_order.order_trans)
        with "1.prems"[OF mm] show False by simp
      qed
      then have "\<And>k. k < length (f m) \<Longrightarrow> \<not> prefix lit (drop k (f m) @ R)"
        using nothing_starts[OF lit(1) stopR] by blast
      from regex_scan_skip[OF this] show ?thesis unfolding sb using ih R_def by simp
    next
      case miss
      then have sb: "substitute lit ok f s = c # substitute lit ok f cs"
        unfolding T_def Cons by auto
      have sc: "regex_scan lit ok s = regex_scan lit ok cs"
        using miss unfolding T_def Cons by auto
      have ih: "regex_scan lit ok (substitute lit ok f cs) = []"
        using "1.IH" "1.prems" sc Cons by simp
      have img: "\<And>m. m \<in> set (regex_scan lit ok s) \<Longrightarrow> f m = m \<or> (\<exists>z. f m = dot # sl # z)"
        using "1.prems" by blast
      define X where "X = c # substitute lit ok f cs"
      have "\<not> (prefix lit X \<and> takeWhile ok (drop (length lit) X) \<noteq> [])"
      proof
        assume h: "prefix lit X \<and> takeWhile ok (drop (length lit) X) \<noteq> []"
        then obtain q where q: "X = lit @ q" by (auto simp: prefix_def)
        with h have "takeWhile ok q \<noteq> []" by simp
        then obtain x q' where x: "q = x # q'" "ok x" by (cases q) (auto split: if_splits)
        then have "prefix (lit @ [x]) (substitute lit ok f s)" using q unfolding sb X_def by simp
        with head_stable[OF lit(1-5) img _ x(2)] miss show False unfolding T_def by blast
      qed
      then have "regex_scan lit ok X = regex_scan lit ok (substitute lit ok f cs)"
        unfolding X_def by auto
      with ih show ?thesis unfolding sb X_def by simp
    qed
  qed
qed

lemma occurrence_found:
  assumes "u = lit @ t" "t \<noteq> []" "list_all ok t" "lit \<noteq> []"
  shows "sublist u r \<Longrightarrow> regex_scan lit ok r \<noteq> []"
proof (induction r)
  case Nil
  then show ?case using assms(1,4) by simp
next
  case (Cons c cs)
  consider (here) "prefix u (c # cs)" | (later) "sublist u cs"
    using Cons.prems by (auto simp: sublist_Cons_right)
  then show ?case
  proof cases
    case here
    then obtain rest where z: "c # cs = lit @ t @ rest"
      by (auto simp: prefix_def assms(1))
    have "ok (hd t)" using assms(2,3) by (cases t) auto
    then have "takeWhile ok (t @ rest) \<noteq> []" using assms(2) by (cases t) auto
    then have "prefix lit (c # cs) \<and>
        takeWhile ok (drop (length lit) (c # cs)) \<noteq> []"
      by (simp add: z)
    then show ?thesis by simp
  next
    case later
    from Cons.IH[OF this] show ?thesis by simp
  qed
qed


text \<open>The literal of the expression, and the local paths.\<close>

lemma literal_body: "list_all url_body (wide remote_prefix)"
  by code_simp

lemma literal_nonempty: "wide remote_prefix \<noteq> []"
  by (simp add: remote_prefix_def wide_def)

lemma literal_last: "last (wide remote_prefix) = 47"
  by code_simp

lemma literal_no_dot_slash: "\<not> sublist [46, 47] (wide remote_prefix)"
  by code_simp

lemma literal_double_slash: "sublist [47, 47] (wide remote_prefix)"
  by code_simp

lemma wide_slash: "(47 :: int) \<in> set (wide fn) \<Longrightarrow> CHR ''/'' \<in> set fn"
proof -
  assume "(47 :: int) \<in> set (wide fn)"
  then obtain c where c: "c \<in> set fn" "of_char c = (47 :: int)" by (auto simp: wide_def)
  have "of_char c = (of_char CHR ''/'' :: int)" using c(2) by simp
  then have "c = CHR ''/''" by (simp only: of_char_eq_iff)
  with c(1) show ?thesis by simp
qed

lemma local_path_usable:
  assumes "usable l m"
  shows "(\<exists>z. local_path l m = 46 # 47 # z) \<and> \<not> sublist [47, 47] (local_path l m)"
proof -
  from assms obtain h fn where j: "js_local l m = Some (h, fn)" and fn: "CHR ''/'' \<notin> set fn"
    by (auto simp: usable_def split: option.splits)
  have lp: "local_path l m = 46 # 47 # wide ''assets/'' @ wide fn"
    by (simp add: local_path_def j wide_def)
  have w: "(47 :: int) \<notin> set (wide fn)" using fn wide_slash by blast
  have a: "wide ''assets/'' = [97, 115, 115, 101, 116, 115, 47]" by (simp add: wide_def)
  have "\<not> sublist [47, 47] (46 # 47 # wide ''assets/'' @ wide fn)"
  proof
    assume "sublist [47, 47] (46 # 47 # wide ''assets/'' @ wide fn)"
    then have "prefix [47, 47] (47 # wide fn) \<or> sublist [47, 47] (wide fn)"
      unfolding a by (simp add: sublist_Cons_right)
    then show False
    proof
      assume "prefix [47, 47] (47 # wide fn)"
      then have "47 \<in> set (wide fn)" by (auto simp: prefix_def)
      then show False using w by simp
    next
      assume "sublist [47, 47] (wide fn)"
      then have "set [47, 47] \<subseteq> set (wide fn)" by (rule set_mono_sublist)
      then show False using w by simp
    qed
  qed
  then show ?thesis using lp by simp
qed

text \<open>One turn of the loop on a match that both constructors accept.\<close>

lemma js_loop_turn:
  assumes "js_local l u = Some (h, fn)"
  shows "js_matches_loop l n (u # ms) (c, md, w) =
     js_matches_loop l n ms
       (replace_all u (local_path l u) c, True,
        if \<not> existsSync (files w) (js_filepath l h)
        then snd (downloadFile n h (js_filepath l h) w) else w)"
proof -
  from assms obtain a b where
    ab: "URL l (url_text u) None = Some a" "URL l (href a) None = Some b" "h = href a"
        "fn = path_basename l (takeWhile (\<lambda>c. c \<noteq> CHR ''?'') (pathname b))"
    by (auto simp: js_local_def split: option.splits)
  have lp: "local_path l u = wide (''./assets/'' @ fn)"
    by (simp add: local_path_def assms)
  have fp: "js_filepath l h = path_join l (ASSETS_DIR l) fn"
    by (simp add: js_filepath_def ab)
  show ?thesis unfolding lp fp using ab by (simp add: Let_def)
qed

lemma js_local_filepath:
  "js_local l u = Some (h, fn) \<Longrightarrow> js_filepath l h = path_join l (ASSETS_DIR l) fn"
  by (auto simp: js_local_def js_filepath_def split: option.splits)

lemma not_inner_first:
  assumes "\<not> inner_match_first ms" "ms = seen @ u # rest" "m \<in> set ms" "m \<notin> set seen"
    "sublist u m"
  shows "m = u"
proof (rule ccontr)
  assume ne: "m \<noteq> u"
  have i: "length seen < length ms" "ms ! length seen = u" "take (length seen) ms = seen"
    using assms(2) by simp_all
  have "list_ex (\<lambda>m. m \<noteq> ms ! length seen \<and> sublist (ms ! length seen) m \<and>
          m \<notin> set (take (length seen) ms)) ms"
    unfolding list_ex_iff i using assms(3,4,5) ne by blast
  then have "inner_match_first ms"
    unfolding inner_match_first_def list_ex_iff[of _ "[0..<length ms]"] using i(1) by auto
  with assms(1) show False by simp
qed

lemma js_loop_content:
  assumes ms: "ms = remote_matches s" and us: "list_all (usable l) ms"
    and nf: "\<not> inner_match_first ms"
  shows "ms = seen @ todo \<Longrightarrow>
     fst (js_matches_loop l n todo
            (substitute (wide remote_prefix) url_body
               (\<lambda>m. if m \<in> set seen then local_path l m else m) s, md, w)) =
       substitute (wide remote_prefix) url_body
         (\<lambda>m. if m \<in> set ms then local_path l m else m) s"
proof (induction todo arbitrary: seen md w)
  case Nil
  then show ?case by simp
next
  case (Cons u rest)
  have um: "u \<in> set (regex_scan (wide remote_prefix) url_body s)"
    using Cons.prems ms by (simp add: remote_matches_def)
  from match_form[OF um] obtain t where
    t: "u = wide remote_prefix @ t" "t \<noteq> []" "list_all url_body t" by blast
  have "usable l u" using us Cons.prems by (simp add: list_all_iff)
  then obtain h fn where j: "js_local l u = Some (h, fn)"
    by (auto simp: usable_def split: option.splits)
  have good: "\<And>m. m \<in> set (regex_scan (wide remote_prefix) url_body s) \<Longrightarrow>
      (\<exists>z. local_path l m = 46 # 47 # z) \<and> \<not> sublist [47, 47] (local_path l m)"
    using us ms local_path_usable by (simp add: remote_matches_def list_all_iff)
  have apart: "\<And>m. m \<in> set (regex_scan (wide remote_prefix) url_body s) \<Longrightarrow>
      m \<notin> set seen \<Longrightarrow> sublist u m \<Longrightarrow> m = u"
    using not_inner_first[OF nf Cons.prems] ms by (simp add: remote_matches_def)
  have step: "replace_all u (local_path l u)
        (substitute (wide remote_prefix) url_body (\<lambda>m. if m \<in> set seen then local_path l m else m) s) =
      substitute (wide remote_prefix) url_body
        (\<lambda>m. if m \<in> set (seen @ [u]) then local_path l m else m) s"
    using replace_step[OF literal_body literal_nonempty literal_last literal_no_dot_slash _
        literal_double_slash t, where f = "local_path l" and s = s and D = "set seen"] good apart
    by simp
  have "ms = (seen @ [u]) @ rest" using Cons.prems by simp
  from Cons.IH[OF this] show ?case
    unfolding js_loop_turn[OF j] step by simp
qed

lemma js_loop_modified:
  "list_all (usable l) todo \<Longrightarrow>
   fst (snd (js_matches_loop l n todo (c, md, w))) = (md \<or> todo \<noteq> [])"
proof (induction todo arbitrary: c md w)
  case Nil
  then show ?case by simp
next
  case (Cons u rest)
  then obtain h fn where j: "js_local l u = Some (h, fn)"
    by (auto simp: usable_def split: option.splits)
  from Cons.prems have "list_all (usable l) rest" by simp
  from Cons.IH[OF this] show ?case unfolding js_loop_turn[OF j] by simp
qed

text \<open>The requests of the loop.\<close>

lemma js_loop_world:
  assumes "list_all (usable l) todo"
  shows "\<exists>rs. requests (snd (snd (js_matches_loop l n todo (c, md, w)))) = requests w @ rs \<and>
          (\<forall>r \<in> set rs. snd r = js_filepath l (fst r) \<and> \<not> existsSync (files w) (snd r) \<and>
                          (\<exists>m \<in> set todo. \<exists>fn. js_local l m = Some (fst r, fn))) \<and>
          (\<forall>p. existsSync (files w) p \<longrightarrow>
                existsSync (files (snd (snd (js_matches_loop l n todo (c, md, w))))) p) \<and>
          same_refusals (files w) (files (snd (snd (js_matches_loop l n todo (c, md, w))))) \<and>
          (\<forall>h. axios_get n h \<noteq> None \<and> write_error (files w) (js_filepath l h) = None \<longrightarrow>
                count_list (map fst rs) h \<le> 1)"
  using assms
proof (induction todo arbitrary: c md w)
  case Nil
  show ?case by simp
next
  case (Cons u rest)
  then obtain h' fn where j: "js_local l u = Some (h', fn)"
    by (auto simp: usable_def split: option.splits)
  from Cons.prems have ur: "list_all (usable l) rest" by simp
  let ?fp = "js_filepath l h'"
  define w1 where "w1 = (if \<not> existsSync (files w) ?fp then snd (downloadFile n h' ?fp w) else w)"
  define c1 where "c1 = replace_all u (local_path l u) c"
  define W where "W = snd (snd (js_matches_loop l n rest (c1, True, w1)))"
  have turn: "snd (snd (js_matches_loop l n (u # rest) (c, md, w))) = W"
    unfolding js_loop_turn[OF j] W_def w1_def c1_def by simp
  from Cons.IH[OF ur, of c1 True w1] obtain rs where
    rs: "requests W = requests w1 @ rs"
      "\<forall>r \<in> set rs. snd r = js_filepath l (fst r) \<and> \<not> existsSync (files w1) (snd r) \<and>
                          (\<exists>m \<in> set rest. \<exists>fn. js_local l m = Some (fst r, fn))"
      "\<forall>p. existsSync (files w1) p \<longrightarrow> existsSync (files W) p"
      "same_refusals (files w1) (files W)"
      "\<forall>h. axios_get n h \<noteq> None \<and> write_error (files w1) (js_filepath l h) = None \<longrightarrow>
                count_list (map fst rs) h \<le> 1"
    unfolding W_def by blast
  have keep: "existsSync (files w) p \<Longrightarrow> existsSync (files w1) p" for p
    unfolding w1_def by (simp add: downloadFile_keeps)
  have ref: "same_refusals (files w) (files w1)"
    unfolding w1_def by (simp add: downloadFile_refusals)
  consider (there) "existsSync (files w) ?fp" | (absent) "\<not> existsSync (files w) ?fp" by blast
  then show ?case
  proof cases
    case there
    then have w1: "w1 = w" by (simp add: w1_def)
    have "requests W = requests w @ rs \<and>
          (\<forall>r \<in> set rs. snd r = js_filepath l (fst r) \<and> \<not> existsSync (files w) (snd r) \<and>
                          (\<exists>m \<in> set (u # rest). \<exists>fn. js_local l m = Some (fst r, fn))) \<and>
          (\<forall>p. existsSync (files w) p \<longrightarrow> existsSync (files W) p) \<and>
          same_refusals (files w) (files W) \<and>
          (\<forall>h. axios_get n h \<noteq> None \<and> write_error (files w) (js_filepath l h) = None \<longrightarrow>
                count_list (map fst rs) h \<le> 1)"
      using rs unfolding w1 by auto
    then show ?thesis unfolding turn by blast
  next
    case absent
    then have w1: "w1 = snd (downloadFile n h' ?fp w)" by (simp add: w1_def)
    have r1: "requests w1 = requests w @ [(h', ?fp)]" unfolding w1 by (rule downloadFile_requests)
    have a: "requests W = requests w @ ((h', ?fp) # rs)" using rs(1) r1 by simp
    have b: "\<forall>r \<in> set ((h', ?fp) # rs). snd r = js_filepath l (fst r) \<and>
               \<not> existsSync (files w) (snd r) \<and>
               (\<exists>m \<in> set (u # rest). \<exists>fn. js_local l m = Some (fst r, fn))"
      using rs(2) absent j keep by auto
    have c: "\<forall>p. existsSync (files w) p \<longrightarrow> existsSync (files W) p"
      using rs(3) keep by blast
    have d: "same_refusals (files w) (files W)"
      using ref rs(4) by (rule same_refusals_trans)
    have e: "count_list (map fst ((h', ?fp) # rs)) h \<le> 1"
      if h: "axios_get n h \<noteq> None" "write_error (files w) (js_filepath l h) = None" for h
    proof -
      have we: "write_error (files w1) (js_filepath l h) = None"
        using ref h(2) by (simp add: same_refusals_def)
      consider (same) "h' = h" | (other) "h' \<noteq> h" by blast
      then show ?thesis
      proof cases
        case same
        from h(1) obtain dat where "axios_get n h = Some dat" by blast
        then have "existsSync (files w1) (js_filepath l h)"
          unfolding w1 same using h(2) by (simp add: downloadFile_stores)
        then have "\<forall>r \<in> set rs. fst r \<noteq> h" using rs(2) by auto
        then have "h \<notin> set (map fst rs)" by auto
        then have "count_list (map fst rs) h = 0" by (simp add: count_list_0_iff)
        then show ?thesis using same by simp
      next
        case other
        then show ?thesis using rs(5) h(1) we by simp
      qed
    qed
    have "requests W = requests w @ ((h', ?fp) # rs) \<and>
          (\<forall>r \<in> set ((h', ?fp) # rs). snd r = js_filepath l (fst r) \<and>
               \<not> existsSync (files w) (snd r) \<and>
               (\<exists>m \<in> set (u # rest). \<exists>fn. js_local l m = Some (fst r, fn))) \<and>
          (\<forall>p. existsSync (files w) p \<longrightarrow> existsSync (files W) p) \<and>
          same_refusals (files w) (files W) \<and>
          (\<forall>h. axios_get n h \<noteq> None \<and> write_error (files w) (js_filepath l h) = None \<longrightarrow>
                count_list (map fst ((h', ?fp) # rs)) h \<le> 1)"
      using a b c d e by blast
    then show ?thesis unfolding turn by blast
  qed
qed


text \<open>
  C4 as stated fails. The script below names one remote image, and twice a second remote
  URL that carries the first one in its query. No request succeeds. The second URL is
  requested twice, once per occurrence, because its file never comes to exist; and its
  occurrences are not replaced by its local path, because replacing the first match
  rewrote the text inside them.
\<close>

theorem js_rewrite_counterexample:
  "remote_matches (read_text render_js) = [wide image_url, wide render_url, wide render_url] \<and>
   inner_match_first (remote_matches (read_text render_js)) \<and>
   js_postprocess node_lib offline [''app.js''] \<lparr>files = render_fs, requests = []\<rparr> =
     Inr \<lparr>files = [(''/site'', Dir), (''/site/assets'', Dir),
                   (''/site/assets/app.js'',
                    File (''./assets/a.png '' @ remote_prefix @ ''render?url=./assets/a.png '' @
                          remote_prefix @ ''render?url=./assets/a.png''))],
          requests = [(image_url, ''/site/assets/a.png''),
                      (render_url, ''/site/assets/render''),
                      (render_url, ''/site/assets/render'')]\<rparr>"
  by code_simp

text \<open>
  A request that succeeds does not end the requests either when the file cannot be
  written: the name below is longer than 255 bytes, \<open>downloadFile\<close> catches the error of
  the write and returns \<^verbatim>\<open>null\<close>, the file does not come to exist, and the URL is requested
  again at its second match.
\<close>

lemma js_refetch_when_write_fails:
  "axios_get long_net long_url = Some ''DATA'' \<and>
   write_error long_fs (''/site/assets/'' @ long_name) = Some ENAMETOOLONG \<and>
   js_postprocess node_lib long_net [''app.js''] \<lparr>files = long_fs, requests = []\<rparr> =
     Inr \<lparr>files = [(''/site'', Dir), (''/site/assets'', Dir),
                   (''/site/assets/app.js'',
                    File (''./assets/'' @ long_name @ '' ./assets/'' @ long_name))],
          requests = [(long_url, ''/site/assets/'' @ long_name),
                      (long_url, ''/site/assets/'' @ long_name)]\<rparr>"
  by code_simp

text \<open>
  C4, as amended, for the pass of step 4 as lines 182 to 214 write it. Take a script
  with at least one match of the expression, where both constructors accept every match
  and give a file name without a slash, and where the loop reaches no match while a
  different match that contains it is still to come. The pass completes and writes back
  the text in which every match is replaced by \<^verbatim>\<open>./assets/\<close> and the basename of its
  path; none of the matched URLs occurs in that text, and the expression finds nothing
  in it. Every request of the pass is for the URL of a match and for a file that did
  not exist before the pass. A URL whose file exists before the pass is not requested,
  and a URL whose request succeeds and whose file the file system accepts is requested
  at most once. Nothing is said of a URL whose request or write fails: it is requested
  again at each of its matches.
\<close>

theorem js_rewrite_matches:
  assumes "readFileSync (files w) (path_join l (ASSETS_DIR l) jsFile) = Inr bytes"
    and "remote_matches (read_text bytes) \<noteq> []"
    and "list_all (usable l) (remote_matches (read_text bytes))"
    and "\<not> inner_match_first (remote_matches (read_text bytes))"
  shows "\<exists>w' rs. js_postprocess l n [jsFile] w = Inr w' \<and>
           map_of (files w') (path_join l (ASSETS_DIR l) jsFile) =
             Some (File (written_text (every_match_replaced l (read_text bytes)))) \<and>
           remote_matches (every_match_replaced l (read_text bytes)) = [] \<and>
           list_all (\<lambda>m. \<not> sublist m (every_match_replaced l (read_text bytes)))
             (remote_matches (read_text bytes)) \<and>
           requests w' = requests w @ rs \<and>
           (\<forall>r \<in> set rs. snd r = js_filepath l (fst r) \<and> \<not> existsSync (files w) (snd r) \<and>
              (\<exists>m \<in> set (remote_matches (read_text bytes)). \<exists>fn. js_local l m = Some (fst r, fn))) \<and>
           (\<forall>u. existsSync (files w) (js_filepath l u) \<longrightarrow> count_list (map fst rs) u = 0) \<and>
           (\<forall>u. axios_get n u \<noteq> None \<and> write_error (files w) (js_filepath l u) = None \<longrightarrow>
              count_list (map fst rs) u \<le> 1)"
proof -
  let ?jp = "path_join l (ASSETS_DIR l) jsFile"
  let ?P = "wide remote_prefix"
  define s where "s = read_text bytes"
  define ms where "ms = remote_matches s"
  define final where "final = every_match_replaced l s"
  have us: "list_all (usable l) ms" and nf: "\<not> inner_match_first ms" and ne: "ms \<noteq> []"
    using assms(2-4) unfolding ms_def s_def by simp_all
  have good: "\<And>m. m \<in> set (regex_scan ?P url_body s) \<Longrightarrow>
      (\<exists>z. local_path l m = 46 # 47 # z) \<and> \<not> sublist [47, 47] (local_path l m)"
    using us local_path_usable unfolding ms_def by (simp add: remote_matches_def list_all_iff)
  have start: "substitute ?P url_body (\<lambda>m. if m \<in> set [] then local_path l m else m) s = s"
    using substitute_id[of ?P url_body s] by simp
  have "fst (js_matches_loop l n ms (s, False, w)) =
          substitute ?P url_body (\<lambda>m. if m \<in> set ms then local_path l m else m) s"
    using js_loop_content[OF ms_def us nf, of "[]" ms n False w] unfolding start by simp
  also have "\<dots> = final"
    unfolding final_def every_match_replaced_def
    by (rule substitute_cong) (simp add: ms_def remote_matches_def)
  finally have content: "fst (js_matches_loop l n ms (s, False, w)) = final" .
  have modified: "fst (snd (js_matches_loop l n ms (s, False, w)))"
    using js_loop_modified[OF us, of n s False w] ne by simp
  define W where "W = snd (snd (js_matches_loop l n ms (s, False, w)))"
  have loop: "js_matches_loop l n ms (s, False, w) = (final, True, W)"
    using content modified unfolding W_def by (metis prod.collapse)
  from js_loop_world[OF us, of n s False w] obtain rs where
    rs: "requests W = requests w @ rs"
      "\<forall>r \<in> set rs. snd r = js_filepath l (fst r) \<and> \<not> existsSync (files w) (snd r) \<and>
                          (\<exists>m \<in> set ms. \<exists>fn. js_local l m = Some (fst r, fn))"
      "same_refusals (files w) (files W)"
      "\<forall>h. axios_get n h \<noteq> None \<and> write_error (files w) (js_filepath l h) = None \<longrightarrow>
                count_list (map fst rs) h \<le> 1"
    unfolding W_def by blast
  have "map_of (files w) ?jp = Some (File bytes)"
    using assms(1) by (auto simp: readFileSync_def split: option.splits entry.splits)
  then have "write_error (files w) ?jp = None" by (simp add: write_error_def)
  then have wr: "write_error (files W) ?jp = None" using rs(3) by (simp add: same_refusals_def)
  define w' where "w' = W\<lparr>files := AList.update ?jp (File (written_text final)) (files W)\<rparr>"
  have run: "js_postprocess l n [jsFile] w = Inr w'"
    using assms(1) loop wr
    by (simp add: Let_def s_def[symmetric] ms_def[symmetric] writeFileSync_accepts w'_def)
  have stored: "map_of (files w') ?jp = Some (File (written_text final))"
    by (simp add: w'_def AList.update_conv')
  have clean: "regex_scan ?P url_body final = []"
    unfolding final_def every_match_replaced_def
    using substitute_clean[OF literal_body literal_nonempty literal_last literal_no_dot_slash _
        literal_double_slash, where f = "local_path l" and s = s] good
    by simp
  have gone: "list_all (\<lambda>m. \<not> sublist m final) ms"
    unfolding list_all_iff
  proof
    fix m
    assume "m \<in> set ms"
    then have "m \<in> set (regex_scan ?P url_body s)" by (simp add: ms_def remote_matches_def)
    from match_form[OF this] obtain t where
      t: "m = ?P @ t" "t \<noteq> []" "list_all url_body t" by blast
    show "\<not> sublist m final"
      using occurrence_found[OF t literal_nonempty, of final] clean by blast
  qed
  have rm: "remote_matches final = []" using clean by (simp add: remote_matches_def)
  have req: "requests w' = requests w @ rs" using rs(1) by (simp add: w'_def)
  have zero: "count_list (map fst rs) u = 0" if "existsSync (files w) (js_filepath l u)" for u
  proof -
    have "\<forall>r \<in> set rs. fst r \<noteq> u" using rs(2) that by auto
    then have "u \<notin> set (map fst rs)" by auto
    then show ?thesis by (simp add: count_list_0_iff)
  qed
  have "js_postprocess l n [jsFile] w = Inr w' \<and>
           map_of (files w') ?jp = Some (File (written_text final)) \<and>
           remote_matches final = [] \<and>
           list_all (\<lambda>m. \<not> sublist m final) ms \<and>
           requests w' = requests w @ rs \<and>
           (\<forall>r \<in> set rs. snd r = js_filepath l (fst r) \<and> \<not> existsSync (files w) (snd r) \<and>
              (\<exists>m \<in> set ms. \<exists>fn. js_local l m = Some (fst r, fn))) \<and>
           (\<forall>u. existsSync (files w) (js_filepath l u) \<longrightarrow> count_list (map fst rs) u = 0) \<and>
           (\<forall>u. axios_get n u \<noteq> None \<and> write_error (files w) (js_filepath l u) = None \<longrightarrow>
              count_list (map fst rs) u \<le> 1)"
    using run stored rm gone req rs(2,4) zero by blast
  then show ?thesis unfolding final_def ms_def s_def by blast
qed

text \<open>
  The amended claim on a script that names two URLs twice each, the last time before a
  no-break space.
\<close>

theorem js_rewrite_matches_witness:
  "readFileSync pdf_fs (path_join node_lib (ASSETS_DIR node_lib) ''app.js'') = Inr pdf_js \<and>
   remote_matches (read_text pdf_js) = [wide pdf_url, wide pdf_url, wide image_url, wide image_url] \<and>
   list_all (usable node_lib) (remote_matches (read_text pdf_js)) \<and>
   \<not> inner_match_first (remote_matches (read_text pdf_js)) \<and>
   axios_get pdf_net pdf_url \<noteq> None \<and>
   write_error pdf_fs (js_filepath node_lib pdf_url) = None \<and>
   (\<exists>w' rs. js_postprocess node_lib pdf_net [''app.js''] \<lparr>files = pdf_fs, requests = []\<rparr> = Inr w' \<and>
         map_of (files w') ''/site/assets/app.js'' =
           Some (File (''var a = '' @ [CHR 0x27] @ ''./assets/file.pdf'' @ [CHR 0x27] @ ''; var b = '' @
                       [CHR 0x27] @ ''./assets/file.pdf'' @ [CHR 0x27] @
                       ''; f(./assets/a.png ./assets/a.png'' @
                       [CHR 0xC2, CHR 0xA0, CHR 0xC3, CHR 0xA9] @ '')'')) \<and>
         requests w' = rs \<and> count_list (map fst rs) pdf_url \<le> 1)"
proof -
  let ?w = "\<lparr>files = pdf_fs, requests = []\<rparr>"
  have 1: "readFileSync (files ?w) (path_join node_lib (ASSETS_DIR node_lib) ''app.js'') = Inr pdf_js"
    by code_simp
  have m: "remote_matches (read_text pdf_js) = [wide pdf_url, wide pdf_url, wide image_url, wide image_url]"
    by code_simp
  have 2: "remote_matches (read_text pdf_js) \<noteq> []" unfolding m by simp
  have 3: "list_all (usable node_lib) (remote_matches (read_text pdf_js))" by code_simp
  have 4: "\<not> inner_match_first (remote_matches (read_text pdf_js))" by code_simp
  have g: "axios_get pdf_net pdf_url \<noteq> None" by (simp add: pdf_net_def)
  have e: "write_error pdf_fs (js_filepath node_lib pdf_url) = None" by code_simp
  have j: "path_join node_lib (ASSETS_DIR node_lib) ''app.js'' = ''/site/assets/app.js''"
    by code_simp
  have r: "written_text (every_match_replaced node_lib (read_text pdf_js)) =
      ''var a = '' @ [CHR 0x27] @ ''./assets/file.pdf'' @ [CHR 0x27] @ ''; var b = '' @
                       [CHR 0x27] @ ''./assets/file.pdf'' @ [CHR 0x27] @
                       ''; f(./assets/a.png ./assets/a.png'' @
                       [CHR 0xC2, CHR 0xA0, CHR 0xC3, CHR 0xA9] @ '')''"
    by code_simp
  from js_rewrite_matches[OF 1 2 3 4, of pdf_net] obtain w' rs where
    "js_postprocess node_lib pdf_net [''app.js''] ?w = Inr w'"
    "map_of (files w') (path_join node_lib (ASSETS_DIR node_lib) ''app.js'') =
       Some (File (written_text (every_match_replaced node_lib (read_text pdf_js))))"
    "requests w' = requests ?w @ rs"
    "\<forall>u. axios_get pdf_net u \<noteq> None \<and> write_error (files ?w) (js_filepath node_lib u) = None \<longrightarrow>
        count_list (map fst rs) u \<le> 1"
    by blast
  then have "js_postprocess node_lib pdf_net [''app.js''] ?w = Inr w' \<and>
      map_of (files w') ''/site/assets/app.js'' =
           Some (File (''var a = '' @ [CHR 0x27] @ ''./assets/file.pdf'' @ [CHR 0x27] @ ''; var b = '' @
                       [CHR 0x27] @ ''./assets/file.pdf'' @ [CHR 0x27] @
                       ''; f(./assets/a.png ./assets/a.png'' @
                       [CHR 0xC2, CHR 0xA0, CHR 0xC3, CHR 0xA9] @ '')'')) \<and>
      requests w' = rs \<and> count_list (map fst rs) pdf_url \<le> 1"
    using g e unfolding r j by simp
  then show ?thesis using 1 m 3 4 g e by auto
qed


end
